theory Spec2Isabelle
  imports Main "HOL-Library.AList"
begin

section \<open>The sync notifier of syncapi/sync/notifier.go\<close>

text \<open>
  The notifier wakes sleeping /sync requests when new data arrives. It keeps the latest
  sync position, the joined users of every room, and one stream object per (user, device).
  Go maps are association lists here (the list order stands for one iteration order of the
  map; the keys of a Go map are unique, see \<open>wf\<close> below), pointers to streams are addresses
  into an explicit store, and \<open>time.Now()\<close> is the parameter \<open>now\<close> of every call that
  reads the clock (nanoseconds, as \<open>time.Duration\<close> counts them). The mutex is held for the
  whole of every call, so that a call is one step from notifier to notifier.

  The registry holds addresses, never nil: \<open>fetchUserDeviceStream\<close> is the only place that
  enters a stream, and it enters the result of \<open>NewUserDeviceStream\<close> when it is not nil;
  the nil test in the loop of \<open>wakeupUsers\<close> therefore never fires and has no branch here.
\<close>

type_synonym addr = nat
type_synonym time = int

definition Minute :: time where
  "Minute = 60000000000"

subsection \<open>Streaming tokens (package types, not among the sources)\<close>

record StreamingToken =
  pdu :: nat
  sendToDevice :: nat
  keyChange :: nat

text \<open>
  Modelled from the spec: the type \<open>types.StreamingToken\<close> and its method \<open>WithUpdates\<close>
  are missing. The spec's data model gives a record of named non-negative integer positions
  (pdu, sendToDevice, keyChange) and the merge: per-dimension maximum; a zero on either
  side is no contribution, so the other side wins; a zero on both sides yields zero.
\<close>

definition merge_dim :: "nat \<Rightarrow> nat \<Rightarrow> nat" where
  "merge_dim cur upd = (if upd = 0 then cur else if cur = 0 then upd else max cur upd)"

definition WithUpdates :: "StreamingToken \<Rightarrow> StreamingToken \<Rightarrow> StreamingToken" where
  "WithUpdates t other =
     \<lparr>pdu = merge_dim (pdu t) (pdu other),
      sendToDevice = merge_dim (sendToDevice t) (sendToDevice other),
      keyChange = merge_dim (keyChange t) (keyChange other)\<rparr>"

text \<open>The order of tokens, dimension by dimension.\<close>

definition token_le :: "StreamingToken \<Rightarrow> StreamingToken \<Rightarrow> bool" where
  "token_le a b \<longleftrightarrow>
     pdu a \<le> pdu b \<and> sendToDevice a \<le> sendToDevice b \<and> keyChange a \<le> keyChange b"

definition newer :: "StreamingToken \<Rightarrow> StreamingToken \<Rightarrow> bool" where
  "newer a b \<longleftrightarrow>
     pdu b < pdu a \<or> sendToDevice b < sendToDevice a \<or> keyChange b < keyChange a"

subsection \<open>User device streams (userstream.go, not among the sources)\<close>

record UserDeviceStream =
  s_UserID :: string
  s_DeviceID :: string
  s_pos :: StreamingToken
  s_generation :: nat
  s_timeOfLastNonEmpty :: time

text \<open>
  Modelled from the spec: \<open>NewUserDeviceStream\<close>, \<open>Broadcast\<close>, \<open>TimeOfLastNonEmpty\<close> and the
  stream's \<open>GetListener\<close> are missing. The spec's stream is a mutable cell with the last
  broadcast token, a generation counter and the time it was last non-empty. A broadcast
  stores the token when it is newer on some dimension (then the time is set to now), bumps
  the generation and wakes the waiters; a listener captures the generation at its creation,
  and a stream just handed to a listener has its time refreshed.
\<close>

definition NewUserDeviceStream :: "string \<Rightarrow> string \<Rightarrow> StreamingToken \<Rightarrow> time \<Rightarrow> UserDeviceStream" where
  "NewUserDeviceStream userID deviceID currPos now =
     \<lparr>s_UserID = userID, s_DeviceID = deviceID, s_pos = currPos, s_generation = 0,
      s_timeOfLastNonEmpty = now\<rparr>"

definition Broadcast :: "StreamingToken \<Rightarrow> time \<Rightarrow> UserDeviceStream \<Rightarrow> UserDeviceStream" where
  "Broadcast p now s =
     (if newer p (s_pos s)
      then s\<lparr>s_pos := p, s_generation := s_generation s + 1, s_timeOfLastNonEmpty := now\<rparr>
      else s\<lparr>s_generation := s_generation s + 1\<rparr>)"

definition TimeOfLastNonEmpty :: "UserDeviceStream \<Rightarrow> time" where
  "TimeOfLastNonEmpty s = s_timeOfLastNonEmpty s"

record UserDeviceStreamListener =
  l_stream :: addr
  l_generation :: nat

definition stream_GetListener :: "addr \<Rightarrow> time \<Rightarrow> UserDeviceStream \<Rightarrow> UserDeviceStreamListener \<times> UserDeviceStream" where
  "stream_GetListener a now s =
     (\<lparr>l_stream = a, l_generation = s_generation s\<rparr>, s\<lparr>s_timeOfLastNonEmpty := now\<rparr>)"

subsection \<open>Events (gomatrixserverlib)\<close>

text \<open>
  Of an event the notifier reads its room, its type, its state key (nil for a non-state
  event), its id and the result of \<open>Membership()\<close>, which is \<open>None\<close> here when the call
  returns an error.
\<close>

record HeaderedEvent =
  ev_RoomID :: string
  ev_Type :: string
  ev_StateKey :: "string option"
  ev_Membership :: "string option"
  ev_EventID :: string

definition Invite :: string where "Invite = ''invite''"
definition Join :: string where "Join = ''join''"
definition Leave :: string where "Leave = ''leave''"
definition Ban :: string where "Ban = ''ban''"

subsection \<open>The string set \<open>userIDSet\<close>\<close>

type_synonym userIDSet = "(string \<times> bool) list"

definition add :: "string \<Rightarrow> userIDSet \<Rightarrow> userIDSet" where
  "add str s = AList.update str True s"

definition remove :: "string \<Rightarrow> userIDSet \<Rightarrow> userIDSet" where
  "remove str s = AList.delete str s"

definition values_of :: "userIDSet \<Rightarrow> string list" where
  "values_of s = map fst s"

subsection \<open>The notifier\<close>

type_synonym registry = "(string \<times> (string \<times> addr) list) list"

record Notifier =
  roomIDToJoinedUsers :: "(string \<times> userIDSet) list"
  currPos :: StreamingToken
  userDeviceStreams :: registry
  lastCleanUpTime :: time
  store :: "UserDeviceStream list"

text \<open>
  What a call does besides changing the notifier, in program order: the write of the
  current position, every \<open>Broadcast\<close> on a stream (by its address) with the token it
  carries, and the log lines.
\<close>

datatype effect =
  SetCurrPos StreamingToken
  | Broadcasted addr StreamingToken
  | LoggedError string
  | LoggedWarn

definition NewNotifier :: "StreamingToken \<Rightarrow> time \<Rightarrow> Notifier" where
  "NewNotifier p now =
     \<lparr>roomIDToJoinedUsers = [], currPos = p, userDeviceStreams = [], lastCleanUpTime = now,
      store = []\<rparr>"

definition CurrentPosition :: "Notifier \<Rightarrow> StreamingToken" where
  "CurrentPosition n = currPos n"

subsubsection \<open>The membership index\<close>

definition ensure_room :: "string \<Rightarrow> (string \<times> userIDSet) list \<Rightarrow> (string \<times> userIDSet) list" where
  "ensure_room roomID m = (case map_of m roomID of None \<Rightarrow> AList.update roomID [] m | Some _ \<Rightarrow> m)"

definition addJoinedUser :: "string \<Rightarrow> string \<Rightarrow> Notifier \<Rightarrow> Notifier" where
  "addJoinedUser roomID userID n =
     n\<lparr>roomIDToJoinedUsers :=
         AList.map_entry roomID (add userID) (ensure_room roomID (roomIDToJoinedUsers n))\<rparr>"

definition removeJoinedUser :: "string \<Rightarrow> string \<Rightarrow> Notifier \<Rightarrow> Notifier" where
  "removeJoinedUser roomID userID n =
     n\<lparr>roomIDToJoinedUsers :=
         AList.map_entry roomID (remove userID) (ensure_room roomID (roomIDToJoinedUsers n))\<rparr>"

definition joinedUsers :: "string \<Rightarrow> Notifier \<Rightarrow> string list" where
  "joinedUsers roomID n =
     (case map_of (roomIDToJoinedUsers n) roomID of None \<Rightarrow> [] | Some s \<Rightarrow> values_of s)"

fun add_all :: "string list \<Rightarrow> userIDSet \<Rightarrow> userIDSet" where
  "add_all [] s = s"
| "add_all (userID # userIDs) s = add_all userIDs (add userID s)"

fun setUsersJoinedToRooms :: "(string \<times> string list) list \<Rightarrow> Notifier \<Rightarrow> Notifier" where
  "setUsersJoinedToRooms [] n = n"
| "setUsersJoinedToRooms ((roomID, userIDs) # rest) n =
     setUsersJoinedToRooms rest
       (n\<lparr>roomIDToJoinedUsers :=
           AList.map_entry roomID (add_all userIDs) (ensure_room roomID (roomIDToJoinedUsers n))\<rparr>)"

subsubsection \<open>The stream registry\<close>

text \<open>
  \<open>devices_of reg user\<close> is the Go expression \<open>n.userDeviceStreams[user]\<close>: the nil map,
  of length 0, for a user without entry.
\<close>

definition devices_of :: "registry \<Rightarrow> string \<Rightarrow> (string \<times> addr) list" where
  "devices_of reg user = (case map_of reg user of None \<Rightarrow> [] | Some t \<Rightarrow> t)"

definition fetchUserDeviceStream ::
  "string \<Rightarrow> string \<Rightarrow> bool \<Rightarrow> time \<Rightarrow> Notifier \<Rightarrow> addr option \<times> Notifier" where
  "fetchUserDeviceStream userID deviceID makeIfNotExists now n =
     (if map_of (userDeviceStreams n) userID = None \<and> \<not> makeIfNotExists then (None, n)
      else
        let reg = (if map_of (userDeviceStreams n) userID = None
                   then AList.update userID [] (userDeviceStreams n)
                   else userDeviceStreams n);
            n1 = n\<lparr>userDeviceStreams := reg\<rparr>
        in case map_of (devices_of reg userID) deviceID of
             Some a \<Rightarrow> (Some a, n1)
           | None \<Rightarrow>
               if \<not> makeIfNotExists then (None, n1)
               else
                 let a = length (store n1)
                 in (Some a,
                     n1\<lparr>store := store n1 @ [NewUserDeviceStream userID deviceID (currPos n1) now],
                        userDeviceStreams := AList.map_entry userID (AList.update deviceID a) reg\<rparr>))"

definition fetchUserStreams :: "string \<Rightarrow> Notifier \<Rightarrow> addr list" where
  "fetchUserStreams userID n =
     (case map_of (userDeviceStreams n) userID of None \<Rightarrow> [] | Some user \<Rightarrow> map snd user)"

subsubsection \<open>Waking streams\<close>

definition broadcast_at :: "addr \<Rightarrow> StreamingToken \<Rightarrow> time \<Rightarrow> Notifier \<Rightarrow> Notifier" where
  "broadcast_at a p now n = n\<lparr>store := (store n)[a := Broadcast p now (store n ! a)]\<rparr>"

fun wake_streams :: "addr list \<Rightarrow> StreamingToken \<Rightarrow> time \<Rightarrow> Notifier \<Rightarrow> effect list \<times> Notifier" where
  "wake_streams [] newPos now n = ([], n)"
| "wake_streams (a # as) newPos now n =
     (case wake_streams as newPos now (broadcast_at a newPos now n) of
        (tr, n') \<Rightarrow> (Broadcasted a newPos # tr, n'))"

fun wakeupUsers :: "string list \<Rightarrow> StreamingToken \<Rightarrow> time \<Rightarrow> Notifier \<Rightarrow> effect list \<times> Notifier" where
  "wakeupUsers [] newPos now n = ([], n)"
| "wakeupUsers (userID # userIDs) newPos now n =
     (case wake_streams (fetchUserStreams userID n) newPos now n of
        (tr1, n1) \<Rightarrow>
          (case wakeupUsers userIDs newPos now n1 of
             (tr2, n2) \<Rightarrow> (tr1 @ tr2, n2)))"

fun wakeupUserDevice ::
  "string \<Rightarrow> string list \<Rightarrow> StreamingToken \<Rightarrow> time \<Rightarrow> Notifier \<Rightarrow> effect list \<times> Notifier" where
  "wakeupUserDevice userID [] newPos now n = ([], n)"
| "wakeupUserDevice userID (deviceID # deviceIDs) newPos now n =
     (case fetchUserDeviceStream userID deviceID False now n of
        (None, n1) \<Rightarrow> wakeupUserDevice userID deviceIDs newPos now n1
      | (Some a, n1) \<Rightarrow>
          (case wakeupUserDevice userID deviceIDs newPos now (broadcast_at a newPos now n1) of
             (tr, n2) \<Rightarrow> (Broadcasted a newPos # tr, n2)))"

subsubsection \<open>The sweep of stale streams\<close>

text \<open>
  One turn of the inner loop of \<open>removeEmptyUserStreams\<close>: the stream of the device is
  deleted from the user's table when it is stale, and then the user's entry is deleted
  when the table has length 0. The two loops range over the tables as they were when the
  loop started; a turn deletes only the entry it visits.
\<close>

definition sweep_step ::
  "UserDeviceStream list \<Rightarrow> time \<Rightarrow> string \<Rightarrow> string \<times> addr \<Rightarrow> registry \<Rightarrow> registry" where
  "sweep_step st deleteBefore user e reg =
     (let reg1 = (if TimeOfLastNonEmpty (st ! snd e) < deleteBefore
                  then AList.map_entry user (AList.delete (fst e)) reg else reg)
      in if length (devices_of reg1 user) = 0 then AList.delete user reg1 else reg1)"

fun sweep_devices ::
  "UserDeviceStream list \<Rightarrow> time \<Rightarrow> string \<Rightarrow> (string \<times> addr) list \<Rightarrow> registry \<Rightarrow> registry" where
  "sweep_devices st deleteBefore user [] reg = reg"
| "sweep_devices st deleteBefore user (e # es) reg =
     sweep_devices st deleteBefore user es (sweep_step st deleteBefore user e reg)"

fun sweep_users ::
  "UserDeviceStream list \<Rightarrow> time \<Rightarrow> registry \<Rightarrow> registry \<Rightarrow> registry" where
  "sweep_users st deleteBefore [] reg = reg"
| "sweep_users st deleteBefore ((user, byUser) # rest) reg =
     sweep_users st deleteBefore rest (sweep_devices st deleteBefore user byUser reg)"

definition removeEmptyUserStreams :: "time \<Rightarrow> Notifier \<Rightarrow> Notifier" where
  "removeEmptyUserStreams now n =
     (if now < lastCleanUpTime n + Minute then n
      else n\<lparr>lastCleanUpTime := now,
             userDeviceStreams :=
               sweep_users (store n) (now - 5 * Minute) (userDeviceStreams n) (userDeviceStreams n)\<rparr>)"

subsubsection \<open>The ingress calls and the reader's call\<close>

text \<open>
  The block of \<open>OnNewEvent\<close> for a non-nil event, up to the wake-up: the users to notify
  are the joined users of the event's room, and a membership event with a state key whose
  membership parses adds the invited or joining user to them and keeps the joined users of
  the room up to date. It yields the log lines, the users to notify and the notifier.
\<close>

definition usersToNotify_of :: "HeaderedEvent \<Rightarrow> Notifier \<Rightarrow> effect list \<times> string list \<times> Notifier" where
  "usersToNotify_of e n =
     (let usersToNotify = joinedUsers (ev_RoomID e) n
      in if ev_Type e = ''m.room.member'' \<and> ev_StateKey e \<noteq> None
         then (case ev_StateKey e of
                 None \<Rightarrow> ([], usersToNotify, n)
               | Some targetUserID \<Rightarrow>
                   (case ev_Membership e of
                      None \<Rightarrow> ([LoggedError (ev_EventID e)], usersToNotify, n)
                    | Some membership \<Rightarrow>
                        if membership = Invite
                        then ([], usersToNotify @ [targetUserID], n)
                        else if membership = Join
                        then ([], usersToNotify @ [targetUserID],
                              addJoinedUser (ev_RoomID e) targetUserID n)
                        else if membership = Leave \<or> membership = Ban
                        then ([], usersToNotify, removeJoinedUser (ev_RoomID e) targetUserID n)
                        else ([], usersToNotify, n)))
         else ([], usersToNotify, n))"

definition OnNewEvent ::
  "time \<Rightarrow> HeaderedEvent option \<Rightarrow> string \<Rightarrow> string list \<Rightarrow> StreamingToken \<Rightarrow> Notifier
    \<Rightarrow> effect list \<times> Notifier" where
  "OnNewEvent now ev roomID userIDs posUpdate n =
     (let latestPos = WithUpdates (currPos n) posUpdate;
          n1 = n\<lparr>currPos := latestPos\<rparr>;
          n2 = removeEmptyUserStreams now n1
      in case ev of
           Some e \<Rightarrow>
             (case usersToNotify_of e n2 of
                (lg, usersToNotify, n3) \<Rightarrow>
                  (case wakeupUsers usersToNotify latestPos now n3 of
                     (tr, n4) \<Rightarrow> (SetCurrPos latestPos # lg @ tr, n4)))
         | None \<Rightarrow>
             if roomID \<noteq> [] then
               (case wakeupUsers (joinedUsers roomID n2) latestPos now n2 of
                  (tr, n3) \<Rightarrow> (SetCurrPos latestPos # tr, n3))
             else if length userIDs > 0 then
               (case wakeupUsers userIDs latestPos now n2 of
                  (tr, n3) \<Rightarrow> (SetCurrPos latestPos # tr, n3))
             else ([SetCurrPos latestPos, LoggedWarn], n2))"

definition OnNewSendToDevice ::
  "time \<Rightarrow> string \<Rightarrow> string list \<Rightarrow> StreamingToken \<Rightarrow> Notifier \<Rightarrow> effect list \<times> Notifier" where
  "OnNewSendToDevice now userID deviceIDs posUpdate n =
     (let latestPos = WithUpdates (currPos n) posUpdate;
          n1 = n\<lparr>currPos := latestPos\<rparr>
      in case wakeupUserDevice userID deviceIDs latestPos now n1 of
           (tr, n2) \<Rightarrow> (SetCurrPos latestPos # tr, n2))"

definition OnNewKeyChange ::
  "time \<Rightarrow> StreamingToken \<Rightarrow> string \<Rightarrow> string \<Rightarrow> Notifier \<Rightarrow> effect list \<times> Notifier" where
  "OnNewKeyChange now posUpdate wakeUserID keyChangeUserID n =
     (let latestPos = WithUpdates (currPos n) posUpdate;
          n1 = n\<lparr>currPos := latestPos\<rparr>
      in case wakeupUsers [wakeUserID] latestPos now n1 of
           (tr, n2) \<Rightarrow> (SetCurrPos latestPos # tr, n2))"

text \<open>
  \<open>GetListener\<close>: the sweep, then the stream of the device, made when there is none, then
  the stream's own listener. The result is \<open>None\<close> where the Go code would call the
  method of a nil stream.
\<close>

definition GetListener ::
  "time \<Rightarrow> string \<Rightarrow> string \<Rightarrow> Notifier \<Rightarrow> UserDeviceStreamListener option \<times> Notifier" where
  "GetListener now userID deviceID n =
     (case fetchUserDeviceStream userID deviceID True now (removeEmptyUserStreams now n) of
        (None, n2) \<Rightarrow> (None, n2)
      | (Some a, n2) \<Rightarrow>
          (case stream_GetListener a now (store n2 ! a) of
             (l, s') \<Rightarrow> (Some l, n2\<lparr>store := (store n2)[a := s']\<rparr>)))"

subsection \<open>Sequences of ingress calls\<close>

datatype ingress =
  CallOnNewEvent time "HeaderedEvent option" string "string list" StreamingToken
  | CallOnNewSendToDevice time string "string list" StreamingToken
  | CallOnNewKeyChange time StreamingToken string string

fun apply_ingress :: "ingress \<Rightarrow> Notifier \<Rightarrow> effect list \<times> Notifier" where
  "apply_ingress (CallOnNewEvent now ev roomID userIDs posUpdate) n =
     OnNewEvent now ev roomID userIDs posUpdate n"
| "apply_ingress (CallOnNewSendToDevice now userID deviceIDs posUpdate) n =
     OnNewSendToDevice now userID deviceIDs posUpdate n"
| "apply_ingress (CallOnNewKeyChange now posUpdate wakeUserID keyChangeUserID) n =
     OnNewKeyChange now posUpdate wakeUserID keyChangeUserID n"

text \<open>The positions that \<open>CurrentPosition\<close> reports after each call of a sequence.\<close>

fun positions :: "ingress list \<Rightarrow> Notifier \<Rightarrow> StreamingToken list" where
  "positions [] n = []"
| "positions (c # cs) n =
     CurrentPosition (snd (apply_ingress c n)) # positions cs (snd (apply_ingress c n))"

text \<open>The position update that a call brings.\<close>

fun posUpdate_of :: "ingress \<Rightarrow> StreamingToken" where
  "posUpdate_of (CallOnNewEvent now ev roomID userIDs posUpdate) = posUpdate"
| "posUpdate_of (CallOnNewSendToDevice now userID deviceIDs posUpdate) = posUpdate"
| "posUpdate_of (CallOnNewKeyChange now posUpdate wakeUserID keyChangeUserID) = posUpdate"

text \<open>
  An effect that may follow the write of the position \<open>m\<close>: a broadcast of \<open>m\<close> itself or
  a log line, and no second write of the position.
\<close>

fun carries :: "StreamingToken \<Rightarrow> effect \<Rightarrow> bool" where
  "carries m (Broadcasted a t) = (t = m)"
| "carries m (SetCurrPos t) = False"
| "carries m (LoggedError x) = True"
| "carries m LoggedWarn = True"

subsection \<open>Who is woken\<close>

text \<open>The broadcasts among the effects of a call: the stream and the token, in order.\<close>

fun broadcasts :: "effect list \<Rightarrow> (addr \<times> StreamingToken) list" where
  "broadcasts [] = []"
| "broadcasts (Broadcasted a t # es) = (a, t) # broadcasts es"
| "broadcasts (SetCurrPos t # es) = broadcasts es"
| "broadcasts (LoggedError x # es) = broadcasts es"
| "broadcasts (LoggedWarn # es) = broadcasts es"

text \<open>How many broadcasts of a call are on the stream at an address.\<close>

definition woken :: "effect list \<Rightarrow> addr \<Rightarrow> nat" where
  "woken tr a = count_list (map fst (broadcasts tr)) a"

text \<open>Every stream that the registry of \<open>n\<close> holds for the users, user by user.\<close>

definition streams_of_users :: "Notifier \<Rightarrow> string list \<Rightarrow> addr list" where
  "streams_of_users n userIDs = concat (map (\<lambda>userID. fetchUserStreams userID n) userIDs)"

text \<open>
  The recipients in the words of the spec, in priority order. With an event: the joined
  users of the event's room, and for a room-membership event the invited or joining target
  user appended (nothing is appended for leave or ban, nor when the membership does not
  parse). Else with a room: its joined users. Else the given users when there are any.
  Else none: warn and do nothing.
\<close>

definition spec_appended :: "HeaderedEvent \<Rightarrow> string list" where
  "spec_appended e =
     (case (ev_StateKey e, ev_Membership e) of
        (Some target, Some membership) \<Rightarrow>
          if ev_Type e = ''m.room.member'' \<and> (membership = Invite \<or> membership = Join)
          then [target] else []
      | _ \<Rightarrow> [])"

definition spec_recipients ::
  "HeaderedEvent option \<Rightarrow> string \<Rightarrow> string list \<Rightarrow> Notifier \<Rightarrow> string list option" where
  "spec_recipients ev roomID userIDs n =
     (case ev of
        Some e \<Rightarrow> Some (joinedUsers (ev_RoomID e) n @ spec_appended e)
      | None \<Rightarrow>
          if roomID \<noteq> [] then Some (joinedUsers roomID n)
          else if userIDs \<noteq> [] then Some userIDs
          else None)"

subsection \<open>The registry as a map, and what the sweep leaves of it\<close>

text \<open>The stream that the registry holds for a device of a user, if any.\<close>

definition lookup_stream :: "registry \<Rightarrow> string \<Rightarrow> string \<Rightarrow> addr option" where
  "lookup_stream reg userID deviceID = map_of (devices_of reg userID) deviceID"

text \<open>
  A stream is stale at time \<open>now\<close> when it was last non-empty more than five minutes
  before: the test of the sweep, with \<open>deleteBefore\<close> at \<open>now - 5 * Minute\<close>.
\<close>

definition stale :: "UserDeviceStream list \<Rightarrow> time \<Rightarrow> addr \<Rightarrow> bool" where
  "stale st now a \<longleftrightarrow> TimeOfLastNonEmpty (st ! a) < now - 5 * Minute"

definition kept :: "UserDeviceStream list \<Rightarrow> time \<Rightarrow> string \<times> addr \<Rightarrow> bool" where
  "kept st now e \<longleftrightarrow> \<not> stale st now (snd e)"

text \<open>
  The entry of a user after a sweep, in the words of the spec: every stale stream is removed
  from the table of the user, and the entry of the user is removed when its table becomes
  empty. A table that was empty before the sweep has no device to visit and stays.
\<close>

definition swept_entry ::
  "UserDeviceStream list \<Rightarrow> time \<Rightarrow> string \<times> (string \<times> addr) list
    \<Rightarrow> (string \<times> (string \<times> addr) list) option" where
  "swept_entry st now ut =
     (if snd ut = [] then Some ut
      else if filter (kept st now) (snd ut) = [] then None
      else Some (fst ut, filter (kept st now) (snd ut)))"

text \<open>
  The keys of a Go map are unique: those of the registry, and those of the table of every
  user.
\<close>

definition unique_keys :: "registry \<Rightarrow> bool" where
  "unique_keys reg \<longleftrightarrow>
     distinct (map fst reg) \<and> list_all (\<lambda>ut. distinct (map fst (snd ut))) reg"

text \<open>
  The streams that the registry points to. In a well-formed notifier the keys are unique,
  different devices have different streams, and every stream of the registry is an object
  of the store.
\<close>

definition reg_addrs :: "registry \<Rightarrow> addr list" where
  "reg_addrs reg = concat (map (\<lambda>ut. map snd (snd ut)) reg)"

definition wf :: "Notifier \<Rightarrow> bool" where
  "wf n \<longleftrightarrow>
     unique_keys (userDeviceStreams n) \<and>
     distinct (reg_addrs (userDeviceStreams n)) \<and>
     list_all (\<lambda>a. a < length (store n)) (reg_addrs (userDeviceStreams n))"

subsection \<open>Sequences of calls with readers\<close>

datatype call =
  Ingress ingress
  | CallGetListener time string string

fun apply_call :: "call \<Rightarrow> Notifier \<Rightarrow> Notifier" where
  "apply_call (Ingress c) n = snd (apply_ingress c n)"
| "apply_call (CallGetListener now userID deviceID) n = snd (GetListener now userID deviceID n)"

fun run_calls :: "call list \<Rightarrow> Notifier \<Rightarrow> Notifier" where
  "run_calls [] n = n"
| "run_calls (c # cs) n = run_calls cs (apply_call c n)"

text \<open>
  The notifier after the sweep that a call starts with: \<open>OnNewEvent\<close> and \<open>GetListener\<close>
  call \<open>removeEmptyUserStreams\<close>, the two other calls do not.
\<close>

fun swept_by :: "call \<Rightarrow> Notifier \<Rightarrow> Notifier" where
  "swept_by (Ingress (CallOnNewEvent now ev roomID userIDs posUpdate)) n =
     removeEmptyUserStreams now n"
| "swept_by (Ingress (CallOnNewSendToDevice now userID deviceIDs posUpdate)) n = n"
| "swept_by (Ingress (CallOnNewKeyChange now posUpdate wakeUserID keyChangeUserID)) n = n"
| "swept_by (CallGetListener now userID deviceID) n = removeEmptyUserStreams now n"

text \<open>The sweep of a call evicts the stream of a device: it is registered before, not after.\<close>

definition evicts :: "call \<Rightarrow> Notifier \<Rightarrow> string \<Rightarrow> string \<Rightarrow> bool" where
  "evicts c n userID deviceID \<longleftrightarrow>
     lookup_stream (userDeviceStreams n) userID deviceID \<noteq> None \<and>
     lookup_stream (userDeviceStreams (swept_by c n)) userID deviceID = None"

fun no_eviction :: "string \<Rightarrow> string \<Rightarrow> call list \<Rightarrow> Notifier \<Rightarrow> bool" where
  "no_eviction userID deviceID [] n = True"
| "no_eviction userID deviceID (c # cs) n =
     (\<not> evicts c n userID deviceID \<and> no_eviction userID deviceID cs (apply_call c n))"

text \<open>The stream that a listener is bound to, for the result of \<open>GetListener\<close>.\<close>

definition bound_stream :: "UserDeviceStreamListener option \<times> Notifier \<Rightarrow> addr option" where
  "bound_stream r = map_option l_stream (fst r)"

subsection \<open>A notifier to run the calls on\<close>

text \<open>
  User u1 is joined to room !r1 and has streams for its devices d1 and d2, user u2 has a
  stream for its device d1; the position is pdu 3, sendToDevice 7, keyChange 0, and the
  last sweep and the streams date from time 0.
\<close>

definition pos0 :: StreamingToken where
  "pos0 = \<lparr>pdu = 3, sendToDevice = 7, keyChange = 0\<rparr>"

definition notifier0 :: Notifier where
  "notifier0 =
     \<lparr>roomIDToJoinedUsers = [(''!r1'', [(''u1'', True)])],
      currPos = pos0,
      userDeviceStreams = [(''u1'', [(''d1'', 0), (''d2'', 1)]), (''u2'', [(''d1'', 2)])],
      lastCleanUpTime = 0,
      store = [NewUserDeviceStream ''u1'' ''d1'' pos0 0, NewUserDeviceStream ''u1'' ''d2'' pos0 0,
               NewUserDeviceStream ''u2'' ''d1'' pos0 0]\<rparr>"

text \<open>
  The same notifier ten minutes later, with the stream of device d2 of user u1 last
  non-empty at minute nine and the two other streams at time 0.
\<close>

definition notifier1 :: Notifier where
  "notifier1 =
     notifier0
       \<lparr>store := [NewUserDeviceStream ''u1'' ''d1'' pos0 0,
                  NewUserDeviceStream ''u1'' ''d2'' pos0 (9 * Minute),
                  NewUserDeviceStream ''u2'' ''d1'' pos0 0]\<rparr>"

text \<open>A membership event for a target user, with the result of parsing its membership.\<close>

definition member_event :: "string \<Rightarrow> string \<Rightarrow> string option \<Rightarrow> HeaderedEvent" where
  "member_event roomID target membership =
     \<lparr>ev_RoomID = roomID, ev_Type = ''m.room.member'', ev_StateKey = Some target,
      ev_Membership = membership, ev_EventID = ''$member''\<rparr>"

section \<open>Properties\<close>

lemmas eval_defs = notifier0_def pos0_def OnNewSendToDevice_def OnNewKeyChange_def OnNewEvent_def
  fetchUserDeviceStream_def devices_of_def broadcast_at_def Broadcast_def newer_def
  NewUserDeviceStream_def WithUpdates_def merge_dim_def CurrentPosition_def Let_def
  fetchUserStreams_def removeEmptyUserStreams_def Minute_def joinedUsers_def values_of_def
  usersToNotify_of_def addJoinedUser_def removeJoinedUser_def ensure_room_def add_def remove_def
  sweep_step_def TimeOfLastNonEmpty_def Invite_def Join_def Leave_def Ban_def
  streams_of_users_def spec_recipients_def spec_appended_def member_event_def

subsection \<open>Tokens\<close>

lemma merge_dim_ge: "cur \<le> merge_dim cur upd"
  by (simp add: merge_dim_def)

lemma merge_dim_max: "merge_dim cur upd = max cur upd"
  by (simp add: merge_dim_def)

lemma token_le_WithUpdates: "token_le t (WithUpdates t other)"
  by (simp add: token_le_def WithUpdates_def merge_dim_ge)

lemma token_le_refl: "token_le t t"
  by (simp add: token_le_def)

lemma token_le_trans: "token_le a b \<Longrightarrow> token_le b c \<Longrightarrow> token_le a c"
  by (auto simp: token_le_def)

subsection \<open>Waking streams changes the streams only\<close>

lemma broadcast_at_frame:
  "currPos (broadcast_at a p now n) = currPos n"
  "roomIDToJoinedUsers (broadcast_at a p now n) = roomIDToJoinedUsers n"
  "userDeviceStreams (broadcast_at a p now n) = userDeviceStreams n"
  "lastCleanUpTime (broadcast_at a p now n) = lastCleanUpTime n"
  "length (store (broadcast_at a p now n)) = length (store n)"
  by (simp_all add: broadcast_at_def)

lemma fetchUserStreams_broadcast_at:
  "fetchUserStreams u (broadcast_at a p now n) = fetchUserStreams u n"
  by (simp add: fetchUserStreams_def broadcast_at_frame)

lemma wake_streams_Cons_snd:
  "snd (wake_streams (a # as) p now n) = snd (wake_streams as p now (broadcast_at a p now n))"
  by (simp split: prod.splits)

lemma wake_streams_Cons_fst:
  "fst (wake_streams (a # as) p now n) =
     Broadcasted a p # fst (wake_streams as p now (broadcast_at a p now n))"
  by (simp split: prod.splits)

lemma wake_streams_frame:
  "currPos (snd (wake_streams as p now n)) = currPos n \<and>
   roomIDToJoinedUsers (snd (wake_streams as p now n)) = roomIDToJoinedUsers n \<and>
   userDeviceStreams (snd (wake_streams as p now n)) = userDeviceStreams n \<and>
   lastCleanUpTime (snd (wake_streams as p now n)) = lastCleanUpTime n \<and>
   length (store (snd (wake_streams as p now n))) = length (store n)"
proof (induction as arbitrary: n)
  case Nil
  show ?case by simp
next
  case (Cons a as)
  show ?case
    unfolding wake_streams_Cons_snd
    using Cons.IH [of "broadcast_at a p now n"] by (simp add: broadcast_at_frame)
qed

lemma wake_streams_trace:
  "fst (wake_streams as p now n) = map (\<lambda>a. Broadcasted a p) as"
proof (induction as arbitrary: n)
  case Nil
  show ?case by simp
next
  case (Cons a as)
  show ?case unfolding wake_streams_Cons_fst using Cons.IH by simp
qed

lemma fetchUserStreams_cong:
  "userDeviceStreams n' = userDeviceStreams n \<Longrightarrow> fetchUserStreams u n' = fetchUserStreams u n"
  by (simp add: fetchUserStreams_def)

lemma wakeupUsers_frame:
  "currPos (snd (wakeupUsers us p now n)) = currPos n \<and>
   roomIDToJoinedUsers (snd (wakeupUsers us p now n)) = roomIDToJoinedUsers n \<and>
   userDeviceStreams (snd (wakeupUsers us p now n)) = userDeviceStreams n \<and>
   lastCleanUpTime (snd (wakeupUsers us p now n)) = lastCleanUpTime n \<and>
   length (store (snd (wakeupUsers us p now n))) = length (store n)"
proof (induction us arbitrary: n)
  case Nil
  show ?case by simp
next
  case (Cons u us)
  obtain tr1 n1 where w1: "wake_streams (fetchUserStreams u n) p now n = (tr1, n1)"
    by (cases "wake_streams (fetchUserStreams u n) p now n")
  obtain tr2 n2 where w2: "wakeupUsers us p now n1 = (tr2, n2)"
    by (cases "wakeupUsers us p now n1")
  from wake_streams_frame [of "fetchUserStreams u n" p now n] w1
  have f1: "currPos n1 = currPos n" "roomIDToJoinedUsers n1 = roomIDToJoinedUsers n"
    "userDeviceStreams n1 = userDeviceStreams n" "lastCleanUpTime n1 = lastCleanUpTime n"
    "length (store n1) = length (store n)"
    by simp_all
  from Cons.IH [of n1] w2 f1 w1 show ?case by simp
qed

lemma wakeupUsers_trace:
  "fst (wakeupUsers us p now n) =
     concat (map (\<lambda>u. map (\<lambda>a. Broadcasted a p) (fetchUserStreams u n)) us)"
proof (induction us arbitrary: n)
  case Nil
  show ?case by simp
next
  case (Cons u us)
  obtain tr1 n1 where w1: "wake_streams (fetchUserStreams u n) p now n = (tr1, n1)"
    by (cases "wake_streams (fetchUserStreams u n) p now n")
  obtain tr2 n2 where w2: "wakeupUsers us p now n1 = (tr2, n2)"
    by (cases "wakeupUsers us p now n1")
  from wake_streams_frame [of "fetchUserStreams u n" p now n] w1
  have r: "userDeviceStreams n1 = userDeviceStreams n" by simp
  have t1: "tr1 = map (\<lambda>a. Broadcasted a p) (fetchUserStreams u n)"
    using wake_streams_trace [of "fetchUserStreams u n" p now n] w1 by simp
  have "tr2 = concat (map (\<lambda>u. map (\<lambda>a. Broadcasted a p) (fetchUserStreams u n1)) us)"
    using Cons.IH [of n1] w2 by simp
  then have t2: "tr2 = concat (map (\<lambda>u. map (\<lambda>a. Broadcasted a p) (fetchUserStreams u n)) us)"
    using r by (simp add: fetchUserStreams_def)
  show ?case using w1 w2 t1 t2 by simp
qed

lemma fetch_no_make: "snd (fetchUserDeviceStream u d False now n) = n"
  by (simp add: fetchUserDeviceStream_def Let_def split: option.splits)

lemma fetch_no_make_result:
  "fst (fetchUserDeviceStream u d False now n) = map_of (devices_of (userDeviceStreams n) u) d"
  by (simp add: fetchUserDeviceStream_def Let_def devices_of_def split: option.splits)

subsection \<open>What the calls leave unchanged\<close>

lemma wakeupUserDevice_Cons_snd:
  "snd (wakeupUserDevice u (d # ds) p now n) =
     (case map_of (devices_of (userDeviceStreams n) u) d of
        None \<Rightarrow> snd (wakeupUserDevice u ds p now n)
      | Some a \<Rightarrow> snd (wakeupUserDevice u ds p now (broadcast_at a p now n)))"
  using fetch_no_make [of u d now n] fetch_no_make_result [of u d now n]
  by (cases "fetchUserDeviceStream u d False now n") (auto split: option.splits prod.splits)

lemma wakeupUserDevice_Cons_fst:
  "fst (wakeupUserDevice u (d # ds) p now n) =
     (case map_of (devices_of (userDeviceStreams n) u) d of
        None \<Rightarrow> fst (wakeupUserDevice u ds p now n)
      | Some a \<Rightarrow> Broadcasted a p # fst (wakeupUserDevice u ds p now (broadcast_at a p now n)))"
  using fetch_no_make [of u d now n] fetch_no_make_result [of u d now n]
  by (cases "fetchUserDeviceStream u d False now n") (auto split: option.splits prod.splits)

lemma wakeupUserDevice_frame:
  "currPos (snd (wakeupUserDevice u ds p now n)) = currPos n \<and>
   roomIDToJoinedUsers (snd (wakeupUserDevice u ds p now n)) = roomIDToJoinedUsers n \<and>
   userDeviceStreams (snd (wakeupUserDevice u ds p now n)) = userDeviceStreams n \<and>
   lastCleanUpTime (snd (wakeupUserDevice u ds p now n)) = lastCleanUpTime n \<and>
   length (store (snd (wakeupUserDevice u ds p now n))) = length (store n)"
proof (induction ds arbitrary: n)
  case Nil
  show ?case by simp
next
  case (Cons d ds)
  show ?case
  proof (cases "map_of (devices_of (userDeviceStreams n) u) d")
    case None
    then show ?thesis unfolding wakeupUserDevice_Cons_snd using Cons.IH [of n] by simp
  next
    case (Some a)
    then show ?thesis unfolding wakeupUserDevice_Cons_snd
      using Cons.IH [of "broadcast_at a p now n"] by (simp add: broadcast_at_frame)
  qed
qed

lemma removeEmptyUserStreams_frame:
  "currPos (removeEmptyUserStreams now n) = currPos n"
  "roomIDToJoinedUsers (removeEmptyUserStreams now n) = roomIDToJoinedUsers n"
  "store (removeEmptyUserStreams now n) = store n"
  by (simp_all add: removeEmptyUserStreams_def)

lemma joined_frame:
  "currPos (addJoinedUser r u n) = currPos n"
  "userDeviceStreams (addJoinedUser r u n) = userDeviceStreams n"
  "lastCleanUpTime (addJoinedUser r u n) = lastCleanUpTime n"
  "store (addJoinedUser r u n) = store n"
  "currPos (removeJoinedUser r u n) = currPos n"
  "userDeviceStreams (removeJoinedUser r u n) = userDeviceStreams n"
  "lastCleanUpTime (removeJoinedUser r u n) = lastCleanUpTime n"
  "store (removeJoinedUser r u n) = store n"
  by (simp_all add: addJoinedUser_def removeJoinedUser_def)

lemma OnNewSendToDevice_snd:
  "snd (OnNewSendToDevice now u ds p n) =
     snd (wakeupUserDevice u ds (WithUpdates (currPos n) p) now
            (n\<lparr>currPos := WithUpdates (currPos n) p\<rparr>))"
  by (simp add: OnNewSendToDevice_def Let_def case_prod_beta)

lemma OnNewSendToDevice_fst:
  "fst (OnNewSendToDevice now u ds p n) =
     SetCurrPos (WithUpdates (currPos n) p) #
     fst (wakeupUserDevice u ds (WithUpdates (currPos n) p) now
            (n\<lparr>currPos := WithUpdates (currPos n) p\<rparr>))"
  by (simp add: OnNewSendToDevice_def Let_def case_prod_beta)

lemma OnNewKeyChange_snd:
  "snd (OnNewKeyChange now p w k n) =
     snd (wakeupUsers [w] (WithUpdates (currPos n) p) now
            (n\<lparr>currPos := WithUpdates (currPos n) p\<rparr>))"
  by (simp add: OnNewKeyChange_def Let_def case_prod_beta)

lemma OnNewKeyChange_fst:
  "fst (OnNewKeyChange now p w k n) =
     SetCurrPos (WithUpdates (currPos n) p) #
     fst (wakeupUsers [w] (WithUpdates (currPos n) p) now
            (n\<lparr>currPos := WithUpdates (currPos n) p\<rparr>))"
  by (simp add: OnNewKeyChange_def Let_def case_prod_beta)

lemma OnNewSendToDevice_currPos:
  "currPos (snd (OnNewSendToDevice now u ds p n)) = WithUpdates (currPos n) p"
  unfolding OnNewSendToDevice_snd by (simp add: wakeupUserDevice_frame)

lemma OnNewKeyChange_currPos:
  "currPos (snd (OnNewKeyChange now p w k n)) = WithUpdates (currPos n) p"
  unfolding OnNewKeyChange_snd by (simp only: wakeupUsers_frame) simp

lemma usersToNotify_of_frame:
  "currPos (snd (snd (usersToNotify_of e n))) = currPos n"
  "userDeviceStreams (snd (snd (usersToNotify_of e n))) = userDeviceStreams n"
  "lastCleanUpTime (snd (snd (usersToNotify_of e n))) = lastCleanUpTime n"
  "store (snd (snd (usersToNotify_of e n))) = store n"
  by (simp_all add: usersToNotify_of_def Let_def joined_frame split: option.splits)

lemma OnNewEvent_None_snd:
  "snd (OnNewEvent now None r us p n) =
     (let latestPos = WithUpdates (currPos n) p;
          n2 = removeEmptyUserStreams now (n\<lparr>currPos := latestPos\<rparr>)
      in if r \<noteq> [] then snd (wakeupUsers (joinedUsers r n2) latestPos now n2)
         else if us \<noteq> [] then snd (wakeupUsers us latestPos now n2)
         else n2)"
  by (simp add: OnNewEvent_def Let_def case_prod_beta)

lemma OnNewEvent_None_fst:
  "fst (OnNewEvent now None r us p n) =
     (let latestPos = WithUpdates (currPos n) p;
          n2 = removeEmptyUserStreams now (n\<lparr>currPos := latestPos\<rparr>)
      in if r \<noteq> [] then SetCurrPos latestPos # fst (wakeupUsers (joinedUsers r n2) latestPos now n2)
         else if us \<noteq> [] then SetCurrPos latestPos # fst (wakeupUsers us latestPos now n2)
         else [SetCurrPos latestPos, LoggedWarn])"
  by (simp add: OnNewEvent_def Let_def case_prod_beta)

lemma OnNewEvent_Some_snd:
  "snd (OnNewEvent now (Some e) r us p n) =
     (let latestPos = WithUpdates (currPos n) p;
          n2 = removeEmptyUserStreams now (n\<lparr>currPos := latestPos\<rparr>)
      in snd (wakeupUsers (fst (snd (usersToNotify_of e n2))) latestPos now
                (snd (snd (usersToNotify_of e n2)))))"
  by (simp add: OnNewEvent_def Let_def case_prod_beta)

lemma OnNewEvent_Some_fst:
  "fst (OnNewEvent now (Some e) r us p n) =
     (let latestPos = WithUpdates (currPos n) p;
          n2 = removeEmptyUserStreams now (n\<lparr>currPos := latestPos\<rparr>)
      in SetCurrPos latestPos # fst (usersToNotify_of e n2) @
         fst (wakeupUsers (fst (snd (usersToNotify_of e n2))) latestPos now
                (snd (snd (usersToNotify_of e n2)))))"
  by (simp add: OnNewEvent_def Let_def case_prod_beta)

lemma OnNewEvent_currPos:
  "currPos (snd (OnNewEvent now ev r us p n)) = WithUpdates (currPos n) p"
proof (cases ev)
  case None
  show ?thesis unfolding None OnNewEvent_None_snd
    by (simp add: Let_def wakeupUsers_frame removeEmptyUserStreams_frame)
next
  case (Some e)
  show ?thesis unfolding Some OnNewEvent_Some_snd
    by (simp add: Let_def wakeupUsers_frame usersToNotify_of_frame removeEmptyUserStreams_frame)
qed

subsection \<open>Sequences of ingress calls\<close>

lemma apply_ingress_currPos:
  "\<exists>p. currPos (snd (apply_ingress c n)) = WithUpdates (currPos n) p"
  by (cases c) (auto simp: OnNewEvent_currPos OnNewSendToDevice_currPos OnNewKeyChange_currPos)

lemma apply_ingress_token_le:
  "token_le (CurrentPosition n) (CurrentPosition (snd (apply_ingress c n)))"
  using apply_ingress_currPos [of c n] by (auto simp: CurrentPosition_def token_le_WithUpdates)

lemma positions_lower_bound:
  "y \<in> set (positions cs n) \<Longrightarrow> token_le (CurrentPosition n) y"
proof (induction cs arbitrary: n)
  case Nil
  then show ?case by simp
next
  case (Cons c cs)
  from Cons.prems consider "y = CurrentPosition (snd (apply_ingress c n))"
    | "y \<in> set (positions cs (snd (apply_ingress c n)))" by auto
  then show ?case
  proof cases
    case 1
    then show ?thesis by (simp add: apply_ingress_token_le)
  next
    case 2
    from Cons.IH [OF 2] apply_ingress_token_le [of n c] show ?thesis
      by (rule token_le_trans [rotated])
  qed
qed

lemma positions_sorted: "sorted_wrt token_le (CurrentPosition n # positions cs n)"
proof (induction cs arbitrary: n)
  case Nil
  show ?case by simp
next
  case (Cons c cs)
  have "\<forall>y\<in>set (positions (c # cs) n). token_le (CurrentPosition n) y"
    using positions_lower_bound by blast
  moreover have "sorted_wrt token_le (positions (c # cs) n)"
    using Cons.IH [of "snd (apply_ingress c n)"] by simp
  ultimately show ?case by simp
qed

subsection \<open>The current position never goes back\<close>

text \<open>
  Claim C1. For every sequence of calls to \<open>OnNewEvent\<close>, \<open>OnNewSendToDevice\<close> and
  \<open>OnNewKeyChange\<close>, with arbitrary position updates, the token that \<open>CurrentPosition\<close>
  returns is non-decreasing in every dimension: each call leaves every dimension at least
  as large as it was, and the positions observed along a sequence of calls form a chain.
\<close>

theorem currPos_non_decreasing:
  "token_le (CurrentPosition n) (CurrentPosition (snd (apply_ingress c n))) \<and>
   sorted_wrt token_le (CurrentPosition n # positions cs n)"
  using apply_ingress_token_le positions_sorted by simp

theorem currPos_non_decreasing_witness:
  "token_le
     (CurrentPosition (NewNotifier \<lparr>pdu = 3, sendToDevice = 7, keyChange = 0\<rparr> 0))
     (CurrentPosition (snd (apply_ingress
        (CallOnNewKeyChange 1 \<lparr>pdu = 0, sendToDevice = 0, keyChange = 4\<rparr> ''u1'' ''u1'')
        (NewNotifier \<lparr>pdu = 3, sendToDevice = 7, keyChange = 0\<rparr> 0)))) \<and>
   sorted_wrt token_le
     (CurrentPosition (NewNotifier \<lparr>pdu = 3, sendToDevice = 7, keyChange = 0\<rparr> 0) #
      positions
        [CallOnNewKeyChange 1 \<lparr>pdu = 0, sendToDevice = 0, keyChange = 4\<rparr> ''u1'' ''u1'',
         CallOnNewEvent 2 None [] [] \<lparr>pdu = 10, sendToDevice = 0, keyChange = 0\<rparr>,
         CallOnNewSendToDevice 3 ''u1'' [''d2''] \<lparr>pdu = 1, sendToDevice = 9, keyChange = 0\<rparr>]
        (NewNotifier \<lparr>pdu = 3, sendToDevice = 7, keyChange = 0\<rparr> 0)) \<and>
   positions
        [CallOnNewKeyChange 1 \<lparr>pdu = 0, sendToDevice = 0, keyChange = 4\<rparr> ''u1'' ''u1'',
         CallOnNewEvent 2 None [] [] \<lparr>pdu = 10, sendToDevice = 0, keyChange = 0\<rparr>,
         CallOnNewSendToDevice 3 ''u1'' [''d2''] \<lparr>pdu = 1, sendToDevice = 9, keyChange = 0\<rparr>]
        (NewNotifier \<lparr>pdu = 3, sendToDevice = 7, keyChange = 0\<rparr> 0) =
     [\<lparr>pdu = 3, sendToDevice = 7, keyChange = 4\<rparr>,
      \<lparr>pdu = 10, sendToDevice = 7, keyChange = 4\<rparr>,
      \<lparr>pdu = 10, sendToDevice = 9, keyChange = 4\<rparr>]"
proof -
  have "positions
        [CallOnNewKeyChange 1 \<lparr>pdu = 0, sendToDevice = 0, keyChange = 4\<rparr> ''u1'' ''u1'',
         CallOnNewEvent 2 None [] [] \<lparr>pdu = 10, sendToDevice = 0, keyChange = 0\<rparr>,
         CallOnNewSendToDevice 3 ''u1'' [''d2''] \<lparr>pdu = 1, sendToDevice = 9, keyChange = 0\<rparr>]
        (NewNotifier \<lparr>pdu = 3, sendToDevice = 7, keyChange = 0\<rparr> 0) =
     [\<lparr>pdu = 3, sendToDevice = 7, keyChange = 4\<rparr>,
      \<lparr>pdu = 10, sendToDevice = 7, keyChange = 4\<rparr>,
      \<lparr>pdu = 10, sendToDevice = 9, keyChange = 4\<rparr>]"
    by (simp add: CurrentPosition_def OnNewEvent_currPos OnNewSendToDevice_currPos
        OnNewKeyChange_currPos NewNotifier_def WithUpdates_def merge_dim_def)
  then show ?thesis
    using currPos_non_decreasing by blast
qed

subsection \<open>The position is written before any stream is woken\<close>

lemma wakeupUsers_carries: "list_all (carries p) (fst (wakeupUsers us p now n))"
  unfolding wakeupUsers_trace by (auto simp: list_all_iff)

lemma wakeupUserDevice_carries: "list_all (carries p) (fst (wakeupUserDevice u ds p now n))"
proof (induction ds arbitrary: n)
  case Nil
  show ?case by simp
next
  case (Cons d ds)
  show ?case unfolding wakeupUserDevice_Cons_fst
    using Cons.IH by (simp split: option.splits)
qed

lemma usersToNotify_of_carries: "list_all (carries p) (fst (usersToNotify_of e n))"
  by (simp add: usersToNotify_of_def Let_def split: option.splits)

lemma OnNewEvent_trace_shape:
  "\<exists>rest. fst (OnNewEvent now ev r us p n) = SetCurrPos (WithUpdates (currPos n) p) # rest \<and>
      list_all (carries (WithUpdates (currPos n) p)) rest"
proof (cases ev)
  case None
  show ?thesis unfolding None OnNewEvent_None_fst
    by (simp add: Let_def wakeupUsers_carries)
next
  case (Some e)
  show ?thesis unfolding Some OnNewEvent_Some_fst
    by (simp add: Let_def wakeupUsers_carries usersToNotify_of_carries)
qed

lemma apply_ingress_trace_shape:
  "\<exists>rest. fst (apply_ingress c n) = SetCurrPos (WithUpdates (currPos n) (posUpdate_of c)) # rest \<and>
      list_all (carries (WithUpdates (currPos n) (posUpdate_of c))) rest"
proof (cases c)
  case (CallOnNewEvent now ev r us p)
  then show ?thesis using OnNewEvent_trace_shape by simp
next
  case (CallOnNewSendToDevice now u ds p)
  then show ?thesis by (simp add: OnNewSendToDevice_fst wakeupUserDevice_carries)
next
  case (CallOnNewKeyChange now p w k)
  then show ?thesis
    using wakeupUsers_carries [of "WithUpdates (currPos n) p" "[w]" now
        "n\<lparr>currPos := WithUpdates (currPos n) p\<rparr>"]
    by (simp only: apply_ingress.simps posUpdate_of.simps OnNewKeyChange_fst) simp
qed

lemma apply_ingress_currPos_eq:
  "currPos (snd (apply_ingress c n)) = WithUpdates (currPos n) (posUpdate_of c)"
  by (cases c) (simp_all add: OnNewEvent_currPos OnNewSendToDevice_currPos OnNewKeyChange_currPos)

text \<open>
  Claim C2. In each ingress call (\<open>OnNewEvent\<close>, \<open>OnNewSendToDevice\<close>, \<open>OnNewKeyChange\<close>)
  the first effect is the write of the current position, which becomes the merge of the old
  position with the update; every broadcast of the call comes after that write and carries
  exactly the merged position, the position is not written again, and the merged position
  is the one the notifier holds when the call returns.
\<close>

theorem token_advanced_before_wake:
  "(\<exists>rest. fst (apply_ingress c n) =
            SetCurrPos (WithUpdates (CurrentPosition n) (posUpdate_of c)) # rest \<and>
          list_all (carries (WithUpdates (CurrentPosition n) (posUpdate_of c))) rest) \<and>
   CurrentPosition (snd (apply_ingress c n)) = WithUpdates (CurrentPosition n) (posUpdate_of c)"
  using apply_ingress_trace_shape [of c n] apply_ingress_currPos_eq [of c n]
  by (simp add: CurrentPosition_def)

theorem token_advanced_before_wake_witness:
  "(\<exists>rest. fst (apply_ingress
              (CallOnNewSendToDevice 1 ''u1'' [''d2''] \<lparr>pdu = 0, sendToDevice = 9, keyChange = 0\<rparr>)
              notifier0) =
            SetCurrPos (WithUpdates (CurrentPosition notifier0)
              (posUpdate_of (CallOnNewSendToDevice 1 ''u1'' [''d2'']
                 \<lparr>pdu = 0, sendToDevice = 9, keyChange = 0\<rparr>))) # rest \<and>
          list_all (carries (WithUpdates (CurrentPosition notifier0)
              (posUpdate_of (CallOnNewSendToDevice 1 ''u1'' [''d2'']
                 \<lparr>pdu = 0, sendToDevice = 9, keyChange = 0\<rparr>)))) rest) \<and>
   fst (apply_ingress
          (CallOnNewSendToDevice 1 ''u1'' [''d2''] \<lparr>pdu = 0, sendToDevice = 9, keyChange = 0\<rparr>)
          notifier0) =
     [SetCurrPos \<lparr>pdu = 3, sendToDevice = 9, keyChange = 0\<rparr>,
      Broadcasted 1 \<lparr>pdu = 3, sendToDevice = 9, keyChange = 0\<rparr>]"
proof -
  have "fst (apply_ingress
          (CallOnNewSendToDevice 1 ''u1'' [''d2''] \<lparr>pdu = 0, sendToDevice = 9, keyChange = 0\<rparr>)
          notifier0) =
     [SetCurrPos \<lparr>pdu = 3, sendToDevice = 9, keyChange = 0\<rparr>,
      Broadcasted 1 \<lparr>pdu = 3, sendToDevice = 9, keyChange = 0\<rparr>]"
    by (simp add: eval_defs)
  then show ?thesis
    using token_advanced_before_wake
      [of "CallOnNewSendToDevice 1 ''u1'' [''d2''] \<lparr>pdu = 0, sendToDevice = 9, keyChange = 0\<rparr>"
          notifier0]
    by blast
qed

subsection \<open>The recipients of \<open>OnNewEvent\<close>\<close>

lemma broadcasts_append: "broadcasts (xs @ ys) = broadcasts xs @ broadcasts ys"
  by (induction xs rule: broadcasts.induct) simp_all

lemma broadcasts_map: "broadcasts (map (\<lambda>a. Broadcasted a p) as) = map (\<lambda>a. (a, p)) as"
  by (induction as) simp_all

lemma broadcasts_wakeupUsers:
  "broadcasts (fst (wakeupUsers us p now n)) = map (\<lambda>a. (a, p)) (streams_of_users n us)"
  unfolding wakeupUsers_trace streams_of_users_def
  by (induction us) (simp_all add: broadcasts_append broadcasts_map)

lemma streams_of_users_cong:
  "userDeviceStreams n' = userDeviceStreams n \<Longrightarrow> streams_of_users n' us = streams_of_users n us"
  by (simp add: streams_of_users_def fetchUserStreams_def)

lemma joinedUsers_cong:
  "roomIDToJoinedUsers n' = roomIDToJoinedUsers n \<Longrightarrow> joinedUsers r n' = joinedUsers r n"
  by (simp add: joinedUsers_def)

lemma usersToNotify_of_users:
  "fst (snd (usersToNotify_of e n)) = joinedUsers (ev_RoomID e) n @ spec_appended e"
  by (auto simp: usersToNotify_of_def spec_appended_def Let_def Invite_def Join_def Leave_def Ban_def
      split: option.splits)

lemma usersToNotify_of_broadcasts: "broadcasts (fst (usersToNotify_of e n)) = []"
  by (simp add: usersToNotify_of_def Let_def split: option.splits)

lemma usersToNotify_of_no_warn: "LoggedWarn \<notin> set (fst (usersToNotify_of e n))"
  by (simp add: usersToNotify_of_def Let_def split: option.splits)

lemma wakeupUsers_no_warn: "LoggedWarn \<notin> set (fst (wakeupUsers us p now n))"
  unfolding wakeupUsers_trace by auto

lemma OnNewEvent_broadcasts:
  "broadcasts (fst (OnNewEvent now ev r us p n)) =
     (case spec_recipients ev r us n of
        None \<Rightarrow> []
      | Some recipients \<Rightarrow>
          map (\<lambda>a. (a, WithUpdates (currPos n) p))
            (streams_of_users (snd (OnNewEvent now ev r us p n)) recipients))"
proof (cases ev)
  case None
  show ?thesis unfolding None OnNewEvent_None_fst OnNewEvent_None_snd
    by (simp add: Let_def spec_recipients_def broadcasts_wakeupUsers wakeupUsers_frame
        removeEmptyUserStreams_frame
        streams_of_users_cong [of "snd (wakeupUsers _ _ _ _)"]
        joinedUsers_cong [of "removeEmptyUserStreams _ _"])
next
  case (Some e)
  show ?thesis unfolding Some OnNewEvent_Some_fst OnNewEvent_Some_snd
    by (simp add: Let_def spec_recipients_def broadcasts_wakeupUsers wakeupUsers_frame
        removeEmptyUserStreams_frame usersToNotify_of_frame broadcasts_append
        usersToNotify_of_broadcasts usersToNotify_of_users
        streams_of_users_cong [of "snd (wakeupUsers _ _ _ _)"]
        streams_of_users_cong [of "snd (snd (usersToNotify_of _ _))"]
        joinedUsers_cong [of "removeEmptyUserStreams _ _"])
qed

lemma OnNewEvent_warn:
  "LoggedWarn \<in> set (fst (OnNewEvent now ev r us p n)) \<longleftrightarrow> spec_recipients ev r us n = None"
proof (cases ev)
  case None
  show ?thesis unfolding None OnNewEvent_None_fst
    by (simp add: Let_def spec_recipients_def wakeupUsers_no_warn)
next
  case (Some e)
  show ?thesis unfolding Some OnNewEvent_Some_fst
    by (simp add: Let_def spec_recipients_def wakeupUsers_no_warn usersToNotify_of_no_warn)
qed

text \<open>
  Claim C3. \<open>OnNewEvent\<close> computes its recipients in strict priority order: with an event,
  the joined users of the event's room with the adjustment for a membership event;
  otherwise with a non-empty room id, the joined users of that room; otherwise with a
  non-empty list of users, exactly these users; otherwise a warning is logged and no stream
  is woken. The streams woken are the streams that the registry holds for the recipients,
  each with the new position, and the warning is logged in the last case only.
\<close>

theorem recipients_in_priority_order:
  "broadcasts (fst (OnNewEvent now ev roomID userIDs posUpdate n)) =
     (case spec_recipients ev roomID userIDs n of
        None \<Rightarrow> []
      | Some recipients \<Rightarrow>
          map (\<lambda>a. (a, WithUpdates (currPos n) posUpdate))
            (streams_of_users (snd (OnNewEvent now ev roomID userIDs posUpdate n)) recipients)) \<and>
   (LoggedWarn \<in> set (fst (OnNewEvent now ev roomID userIDs posUpdate n)) \<longleftrightarrow>
      spec_recipients ev roomID userIDs n = None) \<and>
   (spec_recipients ev roomID userIDs n = None \<longrightarrow>
      store (snd (OnNewEvent now ev roomID userIDs posUpdate n)) = store n)"
proof -
  have "spec_recipients ev roomID userIDs n = None \<Longrightarrow>
      store (snd (OnNewEvent now ev roomID userIDs posUpdate n)) = store n"
    by (cases ev)
      (simp_all add: spec_recipients_def OnNewEvent_None_snd Let_def removeEmptyUserStreams_frame
        split: if_splits)
  then show ?thesis
    using OnNewEvent_broadcasts [of now ev roomID userIDs posUpdate n]
      OnNewEvent_warn [of now ev roomID userIDs posUpdate n] by blast
qed

theorem recipients_in_priority_order_witness:
  "broadcasts (fst (OnNewEvent 1 None ''!r1'' [''u2'']
       \<lparr>pdu = 5, sendToDevice = 0, keyChange = 0\<rparr> notifier0)) =
     [(0, \<lparr>pdu = 5, sendToDevice = 7, keyChange = 0\<rparr>),
      (1, \<lparr>pdu = 5, sendToDevice = 7, keyChange = 0\<rparr>)] \<and>
   broadcasts (fst (OnNewEvent 1 None [] [''u2'']
       \<lparr>pdu = 5, sendToDevice = 0, keyChange = 0\<rparr> notifier0)) =
     [(2, \<lparr>pdu = 5, sendToDevice = 7, keyChange = 0\<rparr>)] \<and>
   LoggedWarn \<in> set (fst (OnNewEvent 1 None [] []
       \<lparr>pdu = 5, sendToDevice = 0, keyChange = 0\<rparr> notifier0)) \<and>
   store (snd (OnNewEvent 1 None [] []
       \<lparr>pdu = 5, sendToDevice = 0, keyChange = 0\<rparr> notifier0)) = store notifier0"
  using recipients_in_priority_order [of 1 None "''!r1''" "[''u2'']"
      "\<lparr>pdu = 5, sendToDevice = 0, keyChange = 0\<rparr>" notifier0]
    recipients_in_priority_order [of 1 None "[]" "[''u2'']"
      "\<lparr>pdu = 5, sendToDevice = 0, keyChange = 0\<rparr>" notifier0]
    recipients_in_priority_order [of 1 None "[]" "[]"
      "\<lparr>pdu = 5, sendToDevice = 0, keyChange = 0\<rparr>" notifier0]
  by (simp add: eval_defs)

subsection \<open>Membership events\<close>

lemma map_of_ensure_room:
  "map_of (ensure_room r m) r' =
     (if r' = r then Some (case map_of m r of None \<Rightarrow> [] | Some s \<Rightarrow> s) else map_of m r')"
  by (simp add: ensure_room_def update_conv' split: option.splits)

lemma joinedUsers_addJoinedUser:
  "set (joinedUsers r (addJoinedUser r u n)) = insert u (set (joinedUsers r n))"
  by (auto simp: joinedUsers_def addJoinedUser_def map_of_map_entry map_of_ensure_room
      values_of_def add_def dom_update split: option.splits)

lemma joinedUsers_removeJoinedUser:
  "set (joinedUsers r (removeJoinedUser r u n)) = set (joinedUsers r n) - {u}"
  by (auto simp: joinedUsers_def removeJoinedUser_def map_of_map_entry map_of_ensure_room
      values_of_def remove_def delete_keys split: option.splits)

lemma joinedUsers_other_room:
  "r' \<noteq> r \<Longrightarrow> joinedUsers r' (addJoinedUser r u n) = joinedUsers r' n"
  "r' \<noteq> r \<Longrightarrow> joinedUsers r' (removeJoinedUser r u n) = joinedUsers r' n"
  by (simp_all add: joinedUsers_def addJoinedUser_def removeJoinedUser_def map_of_map_entry
      map_of_ensure_room)

lemma wakeupUsers_index:
  "roomIDToJoinedUsers (snd (wakeupUsers us p now n)) = roomIDToJoinedUsers n"
  by (simp add: wakeupUsers_frame)

lemma OnNewEvent_Some_index:
  "roomIDToJoinedUsers (snd (OnNewEvent now (Some e) r us p n)) =
     roomIDToJoinedUsers (snd (snd (usersToNotify_of e
        (removeEmptyUserStreams now (n\<lparr>currPos := WithUpdates (currPos n) p\<rparr>)))))"
  unfolding OnNewEvent_Some_snd by (simp add: Let_def wakeupUsers_frame)

lemma sweep_index:
  "roomIDToJoinedUsers (removeEmptyUserStreams now (n\<lparr>currPos := q\<rparr>)) = roomIDToJoinedUsers n"
  by (simp add: removeEmptyUserStreams_frame)

lemma usersToNotify_of_member:
  assumes "ev_Type e = ''m.room.member''" "ev_StateKey e = Some target"
    "ev_Membership e = Some membership"
  shows "snd (snd (usersToNotify_of e n)) =
     (if membership = Invite then n
      else if membership = Join then addJoinedUser (ev_RoomID e) target n
      else if membership = Leave \<or> membership = Ban then removeJoinedUser (ev_RoomID e) target n
      else n)"
    and "spec_appended e = (if membership = Invite \<or> membership = Join then [target] else [])"
  using assms by (simp_all add: usersToNotify_of_def spec_appended_def Let_def)

lemma membership_names_distinct:
  "Invite \<noteq> Join" "Invite \<noteq> Leave" "Invite \<noteq> Ban" "Join \<noteq> Leave" "Join \<noteq> Ban" "Leave \<noteq> Ban"
  by (simp_all add: Invite_def Join_def Leave_def Ban_def)

lemma OnNewEvent_member_joinedUsers:
  assumes "ev_Type e = ''m.room.member''" "ev_StateKey e = Some target"
    "ev_Membership e = Some membership"
  shows "joinedUsers r' (snd (OnNewEvent now (Some e) r us p n)) =
     joinedUsers r'
       (if membership = Invite then n
        else if membership = Join then addJoinedUser (ev_RoomID e) target n
        else if membership = Leave \<or> membership = Ban then removeJoinedUser (ev_RoomID e) target n
        else n)"
proof -
  have "roomIDToJoinedUsers (snd (OnNewEvent now (Some e) r us p n)) =
     roomIDToJoinedUsers
       (if membership = Invite then n
        else if membership = Join then addJoinedUser (ev_RoomID e) target n
        else if membership = Leave \<or> membership = Ban then removeJoinedUser (ev_RoomID e) target n
        else n)"
    unfolding OnNewEvent_Some_index usersToNotify_of_member(1) [OF assms]
    by (simp add: addJoinedUser_def removeJoinedUser_def removeEmptyUserStreams_frame)
  then show ?thesis by (rule joinedUsers_cong)
qed

text \<open>
  Claim C4. For a membership event with a state key whose membership parses, after
  \<open>OnNewEvent\<close> returns the joined users of the event's room reflect the transition: an
  invite leaves the index unchanged, a join puts the target among the joined users of the
  room, a leave or a ban takes it out; the other rooms keep their joined users. For an
  invite and for a join the target is appended to the users that are woken; for a leave and
  for a ban nothing is appended: the users woken are the joined users of the room as they
  were before the call.
\<close>

theorem membership_transition:
  assumes "ev_Type e = ''m.room.member''" "ev_StateKey e = Some target"
    "ev_Membership e = Some membership"
  shows
    "(membership = Invite \<longrightarrow>
        roomIDToJoinedUsers (snd (OnNewEvent now (Some e) r us p n)) = roomIDToJoinedUsers n \<and>
        broadcasts (fst (OnNewEvent now (Some e) r us p n)) =
          map (\<lambda>a. (a, WithUpdates (currPos n) p))
            (streams_of_users (snd (OnNewEvent now (Some e) r us p n))
               (joinedUsers (ev_RoomID e) n @ [target]))) \<and>
     (membership = Join \<longrightarrow>
        target \<in> set (joinedUsers (ev_RoomID e) (snd (OnNewEvent now (Some e) r us p n))) \<and>
        set (joinedUsers (ev_RoomID e) (snd (OnNewEvent now (Some e) r us p n))) =
          insert target (set (joinedUsers (ev_RoomID e) n)) \<and>
        broadcasts (fst (OnNewEvent now (Some e) r us p n)) =
          map (\<lambda>a. (a, WithUpdates (currPos n) p))
            (streams_of_users (snd (OnNewEvent now (Some e) r us p n))
               (joinedUsers (ev_RoomID e) n @ [target]))) \<and>
     (membership = Leave \<or> membership = Ban \<longrightarrow>
        target \<notin> set (joinedUsers (ev_RoomID e) (snd (OnNewEvent now (Some e) r us p n))) \<and>
        set (joinedUsers (ev_RoomID e) (snd (OnNewEvent now (Some e) r us p n))) =
          set (joinedUsers (ev_RoomID e) n) - {target} \<and>
        broadcasts (fst (OnNewEvent now (Some e) r us p n)) =
          map (\<lambda>a. (a, WithUpdates (currPos n) p))
            (streams_of_users (snd (OnNewEvent now (Some e) r us p n))
               (joinedUsers (ev_RoomID e) n))) \<and>
     (\<forall>r'. r' \<noteq> ev_RoomID e \<longrightarrow>
        joinedUsers r' (snd (OnNewEvent now (Some e) r us p n)) = joinedUsers r' n)"
proof -
  note ju = OnNewEvent_member_joinedUsers [OF assms]
  note bc = OnNewEvent_broadcasts [of now "Some e" r us p n]
  note ap = usersToNotify_of_member(2) [OF assms]
  have invite: "membership = Invite \<Longrightarrow>
      roomIDToJoinedUsers (snd (OnNewEvent now (Some e) r us p n)) = roomIDToJoinedUsers n"
    unfolding OnNewEvent_Some_index usersToNotify_of_member(1) [OF assms]
    by (simp add: removeEmptyUserStreams_frame)
  have others: "\<forall>r'. r' \<noteq> ev_RoomID e \<longrightarrow>
        joinedUsers r' (snd (OnNewEvent now (Some e) r us p n)) = joinedUsers r' n"
    unfolding ju by (simp add: joinedUsers_other_room)
  have join: "membership = Join \<Longrightarrow>
      set (joinedUsers (ev_RoomID e) (snd (OnNewEvent now (Some e) r us p n))) =
          insert target (set (joinedUsers (ev_RoomID e) n))"
    unfolding ju using membership_names_distinct by (auto simp: joinedUsers_addJoinedUser)
  have leave: "membership = Leave \<or> membership = Ban \<Longrightarrow>
      set (joinedUsers (ev_RoomID e) (snd (OnNewEvent now (Some e) r us p n))) =
          set (joinedUsers (ev_RoomID e) n) - {target}"
    unfolding ju using membership_names_distinct by (auto simp: joinedUsers_removeJoinedUser)
  have bc_app: "membership = Invite \<or> membership = Join \<Longrightarrow>
      broadcasts (fst (OnNewEvent now (Some e) r us p n)) =
          map (\<lambda>a. (a, WithUpdates (currPos n) p))
            (streams_of_users (snd (OnNewEvent now (Some e) r us p n))
               (joinedUsers (ev_RoomID e) n @ [target]))"
    unfolding bc by (auto simp: spec_recipients_def ap)
  have bc_not: "membership = Leave \<or> membership = Ban \<Longrightarrow>
      broadcasts (fst (OnNewEvent now (Some e) r us p n)) =
          map (\<lambda>a. (a, WithUpdates (currPos n) p))
            (streams_of_users (snd (OnNewEvent now (Some e) r us p n))
               (joinedUsers (ev_RoomID e) n))"
    unfolding bc using membership_names_distinct by (auto simp: spec_recipients_def ap)
  show ?thesis
    using invite others join leave bc_app bc_not by simp
qed

theorem membership_transition_witness:
  "ev_Type (member_event ''!r1'' ''u2'' (Some Join)) = ''m.room.member'' \<and>
   ev_StateKey (member_event ''!r1'' ''u2'' (Some Join)) = Some ''u2'' \<and>
   ev_Membership (member_event ''!r1'' ''u2'' (Some Join)) = Some Join \<and>
   set (joinedUsers ''!r1'' (snd (OnNewEvent 1 (Some (member_event ''!r1'' ''u2'' (Some Join))) [] []
       \<lparr>pdu = 5, sendToDevice = 0, keyChange = 0\<rparr> notifier0))) = {''u1'', ''u2''} \<and>
   broadcasts (fst (OnNewEvent 1 (Some (member_event ''!r1'' ''u2'' (Some Join))) [] []
       \<lparr>pdu = 5, sendToDevice = 0, keyChange = 0\<rparr> notifier0)) =
     [(0, \<lparr>pdu = 5, sendToDevice = 7, keyChange = 0\<rparr>),
      (1, \<lparr>pdu = 5, sendToDevice = 7, keyChange = 0\<rparr>),
      (2, \<lparr>pdu = 5, sendToDevice = 7, keyChange = 0\<rparr>)]"
proof -
  have h: "ev_Type (member_event ''!r1'' ''u2'' (Some Join)) = ''m.room.member''"
    "ev_StateKey (member_event ''!r1'' ''u2'' (Some Join)) = Some ''u2''"
    "ev_Membership (member_event ''!r1'' ''u2'' (Some Join)) = Some Join"
    by (simp_all add: member_event_def)
  have r: "ev_RoomID (member_event ''!r1'' ''u2'' (Some Join)) = ''!r1''"
    by (simp add: member_event_def)
  have j: "joinedUsers ''!r1'' notifier0 = [''u1'']"
    by (simp add: joinedUsers_def notifier0_def values_of_def)
  have u: "userDeviceStreams (snd (OnNewEvent 1 (Some (member_event ''!r1'' ''u2'' (Some Join))) [] []
       \<lparr>pdu = 5, sendToDevice = 0, keyChange = 0\<rparr> notifier0)) = userDeviceStreams notifier0"
    unfolding OnNewEvent_Some_snd
    by (simp add: Let_def wakeupUsers_frame usersToNotify_of_frame removeEmptyUserStreams_def
        notifier0_def Minute_def)
  have s: "streams_of_users (snd (OnNewEvent 1 (Some (member_event ''!r1'' ''u2'' (Some Join))) [] []
       \<lparr>pdu = 5, sendToDevice = 0, keyChange = 0\<rparr> notifier0)) [''u1'', ''u2''] = [0, 1, 2]"
    unfolding streams_of_users_def fetchUserStreams_def u by (simp add: notifier0_def)
  have p: "WithUpdates (currPos notifier0) \<lparr>pdu = 5, sendToDevice = 0, keyChange = 0\<rparr> =
      \<lparr>pdu = 5, sendToDevice = 7, keyChange = 0\<rparr>"
    by (simp add: notifier0_def pos0_def WithUpdates_def merge_dim_def)
  show ?thesis
    using membership_transition [OF h, of 1 "[]" "[]"
        "\<lparr>pdu = 5, sendToDevice = 0, keyChange = 0\<rparr>" notifier0] h
    unfolding r j by (simp add: s p insert_commute)
qed

subsection \<open>A call without recipients\<close>

text \<open>
  Claim C5 says that a call of \<open>OnNewEvent\<close> with a nil event, an empty room id and no
  users changes nothing in the notifier, the current position and the stream registry
  included. The call below, ten minutes after the last sweep, moves the position from pdu 3
  to pdu 10 and sweeps the three stale streams out of the registry.
\<close>

theorem no_recipient_state_change_counterexample:
  "CurrentPosition notifier0 = \<lparr>pdu = 3, sendToDevice = 7, keyChange = 0\<rparr> \<and>
   CurrentPosition (snd (OnNewEvent 600000000000 None [] []
      \<lparr>pdu = 10, sendToDevice = 0, keyChange = 0\<rparr> notifier0)) =
     \<lparr>pdu = 10, sendToDevice = 7, keyChange = 0\<rparr> \<and>
   userDeviceStreams notifier0 = [(''u1'', [(''d1'', 0), (''d2'', 1)]), (''u2'', [(''d1'', 2)])] \<and>
   userDeviceStreams (snd (OnNewEvent 600000000000 None [] []
      \<lparr>pdu = 10, sendToDevice = 0, keyChange = 0\<rparr> notifier0)) = [] \<and>
   snd (OnNewEvent 600000000000 None [] []
      \<lparr>pdu = 10, sendToDevice = 0, keyChange = 0\<rparr> notifier0) \<noteq> notifier0"
proof -
  have a: "CurrentPosition (snd (OnNewEvent 600000000000 None [] []
      \<lparr>pdu = 10, sendToDevice = 0, keyChange = 0\<rparr> notifier0)) =
     \<lparr>pdu = 10, sendToDevice = 7, keyChange = 0\<rparr>"
    by (simp add: CurrentPosition_def OnNewEvent_currPos notifier0_def pos0_def WithUpdates_def
        merge_dim_def)
  have b: "userDeviceStreams (snd (OnNewEvent 600000000000 None [] []
      \<lparr>pdu = 10, sendToDevice = 0, keyChange = 0\<rparr> notifier0)) = []"
    by (simp add: eval_defs)
  have c: "CurrentPosition notifier0 = \<lparr>pdu = 3, sendToDevice = 7, keyChange = 0\<rparr>"
    by (simp add: CurrentPosition_def notifier0_def pos0_def)
  have d: "userDeviceStreams notifier0 = [(''u1'', [(''d1'', 0), (''d2'', 1)]), (''u2'', [(''d1'', 2)])]"
    by (simp add: notifier0_def)
  have "snd (OnNewEvent 600000000000 None [] []
      \<lparr>pdu = 10, sendToDevice = 0, keyChange = 0\<rparr> notifier0) \<noteq> notifier0"
    using b d by auto
  with a b c d show ?thesis by simp
qed

text \<open>
  Claim C5, amended. A call of \<open>OnNewEvent\<close> with a nil event, an empty room id and no
  users logs a warning and wakes no stream: the joined users of every room and every stream
  are as before. The current position is advanced to the merge with the update all the
  same, and the sweep of stale streams runs as in every call: the registry and the time of
  the last sweep are those that \<open>removeEmptyUserStreams\<close> leaves, unchanged when the call
  comes within a minute of the last sweep.
\<close>

theorem no_recipient_call:
  "OnNewEvent now None [] [] posUpdate n =
     ([SetCurrPos (WithUpdates (currPos n) posUpdate), LoggedWarn],
      removeEmptyUserStreams now (n\<lparr>currPos := WithUpdates (currPos n) posUpdate\<rparr>)) \<and>
   broadcasts (fst (OnNewEvent now None [] [] posUpdate n)) = [] \<and>
   roomIDToJoinedUsers (snd (OnNewEvent now None [] [] posUpdate n)) = roomIDToJoinedUsers n \<and>
   store (snd (OnNewEvent now None [] [] posUpdate n)) = store n \<and>
   CurrentPosition (snd (OnNewEvent now None [] [] posUpdate n)) =
     WithUpdates (CurrentPosition n) posUpdate \<and>
   (now < lastCleanUpTime n + Minute \<longrightarrow>
      userDeviceStreams (snd (OnNewEvent now None [] [] posUpdate n)) = userDeviceStreams n \<and>
      lastCleanUpTime (snd (OnNewEvent now None [] [] posUpdate n)) = lastCleanUpTime n)"
  by (simp add: OnNewEvent_def Let_def CurrentPosition_def removeEmptyUserStreams_def)

theorem no_recipient_call_witness:
  "OnNewEvent 1 None [] [] \<lparr>pdu = 10, sendToDevice = 0, keyChange = 0\<rparr> notifier0 =
     ([SetCurrPos \<lparr>pdu = 10, sendToDevice = 7, keyChange = 0\<rparr>, LoggedWarn],
      notifier0\<lparr>currPos := \<lparr>pdu = 10, sendToDevice = 7, keyChange = 0\<rparr>\<rparr>) \<and>
   1 < lastCleanUpTime notifier0 + Minute \<and>
   userDeviceStreams (snd (OnNewEvent 1 None [] []
      \<lparr>pdu = 10, sendToDevice = 0, keyChange = 0\<rparr> notifier0)) = userDeviceStreams notifier0"
proof -
  have t: "1 < lastCleanUpTime notifier0 + Minute"
    by (simp add: notifier0_def Minute_def)
  have w: "WithUpdates (currPos notifier0) \<lparr>pdu = 10, sendToDevice = 0, keyChange = 0\<rparr> =
      \<lparr>pdu = 10, sendToDevice = 7, keyChange = 0\<rparr>"
    by (simp add: notifier0_def pos0_def WithUpdates_def merge_dim_def)
  have g: "removeEmptyUserStreams 1 (notifier0\<lparr>currPos := \<lparr>pdu = 10, sendToDevice = 7, keyChange = 0\<rparr>\<rparr>) =
      notifier0\<lparr>currPos := \<lparr>pdu = 10, sendToDevice = 7, keyChange = 0\<rparr>\<rparr>"
    using t by (simp add: removeEmptyUserStreams_def)
  show ?thesis
    using no_recipient_call [of 1 "\<lparr>pdu = 10, sendToDevice = 0, keyChange = 0\<rparr>" notifier0] t
    unfolding w g by simp
qed

subsection \<open>The ingress calls make no stream\<close>

lemma devices_of_delete:
  "devices_of (AList.delete u reg) u' = (if u' = u then [] else devices_of reg u')"
  by (simp add: devices_of_def delete_conv')

lemma devices_of_map_entry:
  "devices_of (AList.map_entry u f reg) u' =
     (if u' = u then (case map_of reg u of None \<Rightarrow> [] | Some t \<Rightarrow> f t) else devices_of reg u')"
  by (simp add: devices_of_def map_of_map_entry split: option.splits)

lemma lookup_stream_delete:
  "lookup_stream (AList.delete u reg) u' d = (if u' = u then None else lookup_stream reg u' d)"
  by (simp add: lookup_stream_def devices_of_delete)

lemma lookup_stream_delete_device:
  "lookup_stream (AList.map_entry u (AList.delete d) reg) u' d' =
     (if u' = u \<and> d' = d then None else lookup_stream reg u' d')"
proof (cases "u' = u")
  case False
  then show ?thesis by (simp add: lookup_stream_def devices_of_map_entry)
next
  case True
  show ?thesis
  proof (cases "map_of reg u")
    case None
    then show ?thesis using True
      by (simp add: lookup_stream_def devices_of_map_entry) (simp add: devices_of_def)
  next
    case (Some t)
    then have "devices_of reg u = t" by (simp add: devices_of_def)
    then show ?thesis using True Some
      by (simp add: lookup_stream_def devices_of_map_entry delete_conv')
  qed
qed

lemma sweep_step_lookup:
  "lookup_stream (sweep_step st db u e reg) u' d = Some a \<Longrightarrow> lookup_stream reg u' d = Some a"
  by (auto simp: sweep_step_def Let_def lookup_stream_delete lookup_stream_delete_device
      split: if_splits)

lemma sweep_step_keys: "fst ` set (sweep_step st db u e reg) \<subseteq> fst ` set reg"
  using dom_delete_subset [of u reg]
    dom_delete_subset [of u "AList.map_entry u (AList.delete (fst e)) reg"]
  by (auto simp: sweep_step_def Let_def dom_map_entry split: if_splits)

lemma sweep_devices_lookup:
  "lookup_stream (sweep_devices st db u es reg) u' d = Some a \<Longrightarrow> lookup_stream reg u' d = Some a"
proof (induction es arbitrary: reg)
  case Nil
  then show ?case by simp
next
  case (Cons e es)
  from Cons.IH [of "sweep_step st db u e reg"] Cons.prems
  have "lookup_stream (sweep_step st db u e reg) u' d = Some a" by simp
  then show ?case by (rule sweep_step_lookup)
qed

lemma sweep_devices_keys: "fst ` set (sweep_devices st db u es reg) \<subseteq> fst ` set reg"
proof (induction es arbitrary: reg)
  case Nil
  show ?case by simp
next
  case (Cons e es)
  from Cons.IH [of "sweep_step st db u e reg"] sweep_step_keys [of st db u e reg]
  show ?case by auto
qed

lemma sweep_users_lookup:
  "lookup_stream (sweep_users st db us reg) u' d = Some a \<Longrightarrow> lookup_stream reg u' d = Some a"
proof (induction us arbitrary: reg)
  case Nil
  then show ?case by simp
next
  case (Cons ut us)
  obtain u t where ut: "ut = (u, t)" by (cases ut)
  from Cons.IH [of "sweep_devices st db u t reg"] Cons.prems ut
  have "lookup_stream (sweep_devices st db u t reg) u' d = Some a" by simp
  then show ?case by (rule sweep_devices_lookup)
qed

lemma sweep_users_keys: "fst ` set (sweep_users st db us reg) \<subseteq> fst ` set reg"
proof (induction us arbitrary: reg)
  case Nil
  show ?case by simp
next
  case (Cons ut us)
  obtain u t where ut: "ut = (u, t)" by (cases ut)
  from Cons.IH [of "sweep_devices st db u t reg"] sweep_devices_keys [of st db u t reg] ut
  show ?case by auto
qed

lemma removeEmptyUserStreams_lookup:
  "lookup_stream (userDeviceStreams (removeEmptyUserStreams now n)) u d = Some a \<Longrightarrow>
   lookup_stream (userDeviceStreams n) u d = Some a"
  by (auto simp: removeEmptyUserStreams_def dest: sweep_users_lookup split: if_splits)

lemma removeEmptyUserStreams_keys:
  "fst ` set (userDeviceStreams (removeEmptyUserStreams now n)) \<subseteq> fst ` set (userDeviceStreams n)"
  using sweep_users_keys [of "store n" "now - 5 * Minute" "userDeviceStreams n" "userDeviceStreams n"]
  by (auto simp: removeEmptyUserStreams_def)

lemma removeEmptyUserStreams_currPos_irrelevant:
  "userDeviceStreams (removeEmptyUserStreams now (n\<lparr>currPos := q\<rparr>)) =
   userDeviceStreams (removeEmptyUserStreams now n)"
  by (simp add: removeEmptyUserStreams_def)

lemma OnNewEvent_registry:
  "userDeviceStreams (snd (OnNewEvent now ev r us p n)) =
   userDeviceStreams (removeEmptyUserStreams now n)"
proof (cases ev)
  case None
  show ?thesis unfolding None OnNewEvent_None_snd
    by (simp add: Let_def wakeupUsers_frame removeEmptyUserStreams_currPos_irrelevant)
next
  case (Some e)
  show ?thesis unfolding Some OnNewEvent_Some_snd
    by (simp add: Let_def wakeupUsers_frame usersToNotify_of_frame
        removeEmptyUserStreams_currPos_irrelevant)
qed

lemma OnNewEvent_store_length:
  "length (store (snd (OnNewEvent now ev r us p n))) = length (store n)"
proof (cases ev)
  case None
  show ?thesis unfolding None OnNewEvent_None_snd
    by (simp add: Let_def wakeupUsers_frame removeEmptyUserStreams_frame)
next
  case (Some e)
  show ?thesis unfolding Some OnNewEvent_Some_snd
    by (simp add: Let_def wakeupUsers_frame usersToNotify_of_frame removeEmptyUserStreams_frame)
qed

lemma OnNewSendToDevice_registry:
  "userDeviceStreams (snd (OnNewSendToDevice now u ds p n)) = userDeviceStreams n"
  "length (store (snd (OnNewSendToDevice now u ds p n))) = length (store n)"
  unfolding OnNewSendToDevice_snd by (simp_all add: wakeupUserDevice_frame)

lemma OnNewKeyChange_registry:
  "userDeviceStreams (snd (OnNewKeyChange now p w k n)) = userDeviceStreams n"
  "length (store (snd (OnNewKeyChange now p w k n))) = length (store n)"
  unfolding OnNewKeyChange_snd by (simp_all only: wakeupUsers_frame) simp_all

text \<open>
  Claim C10. The ingress calls \<open>OnNewEvent\<close>, \<open>OnNewSendToDevice\<close> and \<open>OnNewKeyChange\<close>
  never add an entry to the stream registry: every stream that the registry holds after the
  call it held before for the same user and device, no user entry is new, and no stream
  object is made. The registry after \<open>OnNewEvent\<close> is the registry that the sweep leaves;
  after the other two calls it is the registry of before.
\<close>

theorem ingress_adds_no_stream:
  "(\<forall>u d a. lookup_stream (userDeviceStreams (snd (apply_ingress c n))) u d = Some a \<longrightarrow>
        lookup_stream (userDeviceStreams n) u d = Some a) \<and>
   fst ` set (userDeviceStreams (snd (apply_ingress c n))) \<subseteq> fst ` set (userDeviceStreams n) \<and>
   length (store (snd (apply_ingress c n))) = length (store n) \<and>
   userDeviceStreams (snd (apply_ingress c n)) =
     (case c of
        CallOnNewEvent now ev roomID userIDs posUpdate \<Rightarrow>
          userDeviceStreams (removeEmptyUserStreams now n)
      | CallOnNewSendToDevice now userID deviceIDs posUpdate \<Rightarrow> userDeviceStreams n
      | CallOnNewKeyChange now posUpdate wakeUserID keyChangeUserID \<Rightarrow> userDeviceStreams n)"
proof (cases c)
  case (CallOnNewEvent now ev r us p)
  then show ?thesis
    using removeEmptyUserStreams_lookup [of now n] removeEmptyUserStreams_keys [of now n]
    by (simp add: OnNewEvent_registry OnNewEvent_store_length)
next
  case (CallOnNewSendToDevice now u ds p)
  then show ?thesis by (simp add: OnNewSendToDevice_registry)
next
  case (CallOnNewKeyChange now p w k)
  then show ?thesis by (simp add: OnNewKeyChange_registry)
qed

theorem ingress_adds_no_stream_witness:
  "userDeviceStreams (snd (apply_ingress
      (CallOnNewEvent 1 None [] [''u3''] \<lparr>pdu = 5, sendToDevice = 0, keyChange = 0\<rparr>) notifier0)) =
     userDeviceStreams notifier0 \<and>
   userDeviceStreams (snd (apply_ingress
      (CallOnNewSendToDevice 1 ''u1'' [''d9''] \<lparr>pdu = 0, sendToDevice = 9, keyChange = 0\<rparr>)
      notifier0)) = userDeviceStreams notifier0 \<and>
   length (store (snd (apply_ingress
      (CallOnNewEvent 1 None [] [''u3''] \<lparr>pdu = 5, sendToDevice = 0, keyChange = 0\<rparr>) notifier0))) = 3 \<and>
   lookup_stream (userDeviceStreams (snd (apply_ingress
      (CallOnNewEvent 1 None [] [''u3''] \<lparr>pdu = 5, sendToDevice = 0, keyChange = 0\<rparr>) notifier0)))
      ''u3'' ''d1'' = None"
proof -
  have g: "removeEmptyUserStreams 1 notifier0 = notifier0"
    by (simp add: removeEmptyUserStreams_def notifier0_def Minute_def)
  have l: "length (store notifier0) = 3" by (simp add: notifier0_def)
  have k: "lookup_stream (userDeviceStreams notifier0) ''u3'' ''d1'' = None"
    by (simp add: lookup_stream_def devices_of_def notifier0_def)
  show ?thesis
    using ingress_adds_no_stream
        [of "CallOnNewEvent 1 None [] [''u3''] \<lparr>pdu = 5, sendToDevice = 0, keyChange = 0\<rparr>" notifier0,
          THEN conjunct2, THEN conjunct2]
      ingress_adds_no_stream
        [of "CallOnNewSendToDevice 1 ''u1'' [''d9''] \<lparr>pdu = 0, sendToDevice = 9, keyChange = 0\<rparr>"
            notifier0, THEN conjunct2, THEN conjunct2]
    by (simp add: g l k)
qed

subsection \<open>The registry after a sweep\<close>

lemma map_entry_at:
  "u \<notin> fst ` set A \<Longrightarrow> AList.map_entry u f (A @ (u, t) # B) = A @ (u, f t) # B"
  by (induction A) auto

lemma delete_at:
  "u \<notin> fst ` set A \<Longrightarrow> u \<notin> fst ` set B \<Longrightarrow> AList.delete u (A @ (u, t) # B) = A @ B"
  by (induction A) auto

lemma devices_of_at:
  "u \<notin> fst ` set A \<Longrightarrow> devices_of (A @ (u, t) # B) u = t"
  by (induction A) (auto simp: devices_of_def)

lemma sweep_step_at:
  assumes "u \<notin> fst ` set A" "u \<notin> fst ` set B" "distinct (map fst (k @ e # es))"
  shows "sweep_step st (now - 5 * Minute) u e (A @ (u, k @ e # es) # B) =
     (if kept st now e then A @ (u, k @ e # es) # B
      else if k @ es = [] then A @ B else A @ (u, k @ es) # B)"
proof -
  have d: "AList.delete (fst e) (k @ e # es) = k @ es"
    using assms(3) delete_at [of "fst e" k es "snd e"] by auto
  show ?thesis
    using assms(1,2)
    by (simp add: sweep_step_def Let_def kept_def stale_def map_entry_at d devices_of_at delete_at)
qed

lemma sweep_devices_at:
  assumes "u \<notin> fst ` set A" "u \<notin> fst ` set B" "distinct (map fst (k @ es))" "es \<noteq> []"
  shows "sweep_devices st (now - 5 * Minute) u es (A @ (u, k @ es) # B) =
     (if k @ filter (kept st now) es = [] then A @ B
      else A @ (u, k @ filter (kept st now) es) # B)"
  using assms(3,4)
proof (induction es arbitrary: k)
  case Nil
  then show ?case by simp
next
  case (Cons e es)
  note step = sweep_step_at [OF assms(1,2) Cons.prems(1), of st now]
  show ?case
  proof (cases "es = []")
    case True
    then show ?thesis using step by simp
  next
    case False
    show ?thesis
    proof (cases "kept st now e")
      case True
      have "distinct (map fst ((k @ [e]) @ es))" using Cons.prems(1) by simp
      from Cons.IH [OF this False] True step show ?thesis by simp
    next
      case stale: False
      have "distinct (map fst (k @ es))" using Cons.prems(1) by simp
      from Cons.IH [OF this False] stale step False show ?thesis by simp
    qed
  qed
qed

lemma sweep_devices_entry:
  assumes "u \<notin> fst ` set A" "u \<notin> fst ` set B" "distinct (map fst t)"
  shows "sweep_devices st (now - 5 * Minute) u t (A @ (u, t) # B) =
     A @ (case swept_entry st now (u, t) of None \<Rightarrow> [] | Some ut \<Rightarrow> [ut]) @ B"
proof (cases "t = []")
  case True
  then show ?thesis by (simp add: swept_entry_def)
next
  case False
  from sweep_devices_at [OF assms(1,2), of "[]" t st now] assms(3) False
  show ?thesis by (simp add: swept_entry_def)
qed

lemma swept_entry_key: "swept_entry st now ut = Some ut' \<Longrightarrow> fst ut' = fst ut"
  by (auto simp: swept_entry_def split: if_splits)

lemma sweep_users_at:
  assumes "distinct (map fst (A @ us))" "list_all (\<lambda>ut. distinct (map fst (snd ut))) us"
  shows "sweep_users st (now - 5 * Minute) us (A @ us) = A @ List.map_filter (swept_entry st now) us"
  using assms
proof (induction us arbitrary: A)
  case Nil
  show ?case by simp
next
  case (Cons ut us)
  obtain u t where ut: "ut = (u, t)" by (cases ut)
  have notin: "u \<notin> fst ` set A" "u \<notin> fst ` set us" and dt: "distinct (map fst t)"
    using Cons.prems ut by auto
  let ?m = "case swept_entry st now (u, t) of None \<Rightarrow> [] | Some ut \<Rightarrow> [ut]"
  have keys: "fst ` set ?m \<subseteq> {u}" "distinct (map fst ?m)"
    by (auto simp: swept_entry_def)
  have "distinct (map fst ((A @ ?m) @ us))"
    using Cons.prems(1) ut keys by auto
  moreover have "list_all (\<lambda>ut. distinct (map fst (snd ut))) us" using Cons.prems(2) by simp
  ultimately have "sweep_users st (now - 5 * Minute) us ((A @ ?m) @ us) =
      (A @ ?m) @ List.map_filter (swept_entry st now) us"
    by (rule Cons.IH)
  then show ?case
    unfolding ut using sweep_devices_entry [OF notin dt, of st now]
    by (simp split: option.splits)
qed

lemma removeEmptyUserStreams_swept:
  assumes "unique_keys (userDeviceStreams n)" "lastCleanUpTime n + Minute \<le> now"
  shows "userDeviceStreams (removeEmptyUserStreams now n) =
     List.map_filter (swept_entry (store n) now) (userDeviceStreams n)"
proof -
  have a: "distinct (map fst ([] @ userDeviceStreams n))"
    using assms(1) by (simp add: unique_keys_def)
  have b: "list_all (\<lambda>ut. distinct (map fst (snd ut))) (userDeviceStreams n)"
    using assms(1) by (simp add: unique_keys_def)
  have c: "sweep_users (store n) (now - 5 * Minute) (userDeviceStreams n) ([] @ userDeviceStreams n) =
      [] @ List.map_filter (swept_entry (store n) now) (userDeviceStreams n)"
    using a b by (rule sweep_users_at)
  have d: "\<not> now < lastCleanUpTime n + Minute" using assms(2) by simp
  have e: "userDeviceStreams (removeEmptyUserStreams now n) =
      sweep_users (store n) (now - 5 * Minute) (userDeviceStreams n) (userDeviceStreams n)"
    unfolding removeEmptyUserStreams_def using d by simp
  show ?thesis unfolding e using c by simp
qed

lemma map_filter_swept_keys:
  "fst ` set (List.map_filter (swept_entry st now) reg) \<subseteq> fst ` set reg"
proof (induction reg)
  case Nil
  show ?case by simp
next
  case (Cons ut reg)
  then show ?case
    by (cases "swept_entry st now ut") (auto dest: swept_entry_key)
qed

lemma map_of_swept:
  "distinct (map fst reg) \<Longrightarrow>
   map_of (List.map_filter (swept_entry st now) reg) u =
     (case map_of reg u of None \<Rightarrow> None | Some t \<Rightarrow> map_option snd (swept_entry st now (u, t)))"
proof (induction reg)
  case Nil
  show ?case by simp
next
  case (Cons ut reg)
  obtain u' t' where ut: "ut = (u', t')" by (cases ut)
  have ih: "map_of (List.map_filter (swept_entry st now) reg) u =
     (case map_of reg u of None \<Rightarrow> None | Some t \<Rightarrow> map_option snd (swept_entry st now (u, t)))"
    using Cons by simp
  show ?case
  proof (cases "u = u'")
    case False
    then show ?thesis using ih ut
      by (cases "swept_entry st now (u', t')") (auto dest: swept_entry_key)
  next
    case True
    have "u \<notin> fst ` set reg" using Cons.prems ut True by auto
    then have none: "map_of reg u = None" by (simp add: map_of_eq_None_iff)
    show ?thesis
    proof (cases "swept_entry st now (u', t')")
      case None
      then show ?thesis using ih none ut True by simp
    next
      case (Some y)
      then have "fst y = u'" by (auto dest: swept_entry_key)
      then show ?thesis using Some ut True by (cases y) simp
    qed
  qed
qed

lemma devices_of_swept:
  assumes "distinct (map fst reg)"
  shows "devices_of (List.map_filter (swept_entry st now) reg) u =
     filter (kept st now) (devices_of reg u)"
  unfolding devices_of_def map_of_swept [OF assms]
  by (simp add: swept_entry_def split: option.splits)

lemma map_of_filter_kept:
  "distinct (map fst t) \<Longrightarrow>
   map_of (filter (kept st now) t) d =
     (case map_of t d of None \<Rightarrow> None | Some a \<Rightarrow> if stale st now a then None else Some a)"
proof (induction t)
  case Nil
  show ?case by simp
next
  case (Cons e t)
  have "fst e \<notin> fst ` set t" using Cons.prems by auto
  then have "map_of t (fst e) = None" by (simp add: map_of_eq_None_iff)
  then show ?case using Cons by (cases e) (auto simp: kept_def)
qed

lemma unique_keys_devices_of:
  assumes "unique_keys reg"
  shows "distinct (map fst (devices_of reg u))"
proof (cases "map_of reg u")
  case None
  then show ?thesis by (simp add: devices_of_def)
next
  case (Some t)
  then have "(u, t) \<in> set reg" by (rule map_of_SomeD)
  then have "distinct (map fst t)"
    using assms by (auto simp: unique_keys_def list_all_iff)
  then show ?thesis using Some by (simp add: devices_of_def)
qed

lemma lookup_stream_swept:
  assumes "unique_keys reg"
  shows "lookup_stream (List.map_filter (swept_entry st now) reg) u d =
     (case lookup_stream reg u d of None \<Rightarrow> None
      | Some a \<Rightarrow> if stale st now a then None else Some a)"
proof -
  have "distinct (map fst reg)" using assms by (simp add: unique_keys_def)
  then show ?thesis
    unfolding lookup_stream_def
    by (simp add: devices_of_swept map_of_filter_kept [OF unique_keys_devices_of [OF assms]])
qed

lemma unique_keys_swept:
  assumes "unique_keys reg"
  shows "unique_keys (List.map_filter (swept_entry st now) reg)"
proof -
  have "distinct (map fst reg) \<Longrightarrow> distinct (map fst (List.map_filter (swept_entry st now) reg))"
  proof (induction reg)
    case Nil
    show ?case by simp
  next
    case (Cons ut reg)
    have "fst ut \<notin> fst ` set (List.map_filter (swept_entry st now) reg)"
      using Cons.prems map_filter_swept_keys [of st now reg] by auto
    show ?case
    proof (cases "swept_entry st now ut")
      case None
      then show ?thesis using Cons by simp
    next
      case (Some y)
      then have "fst y = fst ut" by (rule swept_entry_key)
      then show ?thesis using Some Cons \<open>fst ut \<notin> _\<close> by simp
    qed
  qed
  moreover have "list_all (\<lambda>ut. distinct (map fst (snd ut))) reg \<Longrightarrow>
      list_all (\<lambda>ut. distinct (map fst (snd ut))) (List.map_filter (swept_entry st now) reg)"
  proof (induction reg)
    case Nil
    show ?case by simp
  next
    case (Cons ut reg)
    then show ?case
      by (cases "swept_entry st now ut")
        (auto simp: swept_entry_def distinct_map_filter split: if_splits)
  qed
  ultimately show ?thesis using assms by (simp add: unique_keys_def)
qed

lemma reg_addrs_swept:
  "reg_addrs (List.map_filter (swept_entry st now) reg) =
     filter (\<lambda>a. \<not> stale st now a) (reg_addrs reg)"
proof (induction reg)
  case Nil
  show ?case by (simp add: reg_addrs_def)
next
  case (Cons ut reg)
  have k: "map snd (filter (kept st now) t) = filter (\<lambda>a. \<not> stale st now a) (map snd t)" for t
  proof -
    have "kept st now = (\<lambda>x. \<not> stale st now (snd x))" by (simp add: kept_def fun_eq_iff)
    then show ?thesis by (simp add: filter_map comp_def)
  qed
  have ih: "reg_addrs (List.map_filter (swept_entry st now) reg) =
     filter (\<lambda>a. \<not> stale st now a) (reg_addrs reg)" by (rule Cons.IH)
  show ?case
  proof (cases "swept_entry st now ut")
    case None
    then have "filter (kept st now) (snd ut) = []" by (auto simp: swept_entry_def split: if_splits)
    then have "filter (\<lambda>a. \<not> stale st now a) (map snd (snd ut)) = []"
      using k [of "snd ut"] by simp
    then show ?thesis using None ih by (simp add: reg_addrs_def)
  next
    case (Some y)
    then have "map snd (snd y) = filter (\<lambda>a. \<not> stale st now a) (map snd (snd ut))"
      using k [of "snd ut"] by (auto simp: swept_entry_def split: if_splits)
    then show ?thesis using Some ih by (simp add: reg_addrs_def)
  qed
qed

lemma wf_removeEmptyUserStreams:
  assumes "wf n"
  shows "wf (removeEmptyUserStreams now n)"
proof (cases "now < lastCleanUpTime n + Minute")
  case True
  then show ?thesis using assms by (simp add: removeEmptyUserStreams_def)
next
  case False
  then have t: "lastCleanUpTime n + Minute \<le> now" by simp
  have u: "unique_keys (userDeviceStreams n)" using assms by (simp add: wf_def)
  show ?thesis
    unfolding wf_def removeEmptyUserStreams_swept [OF u t] removeEmptyUserStreams_frame
    using assms by (simp add: wf_def unique_keys_swept reg_addrs_swept list_all_iff)
qed

text \<open>
  Claim C8. The sweep runs at most once per minute: a call within one minute of
  \<open>lastCleanUpTime\<close> changes nothing, and a sweep sets \<open>lastCleanUpTime\<close> to now, so that
  the calls of the next minute change nothing. When the sweep runs (on a registry with
  unique keys, as every Go map has), it removes from the registry exactly the streams last
  non-empty more than five minutes before now, and it removes the entry of a user when the
  table of the user becomes empty: the registry after the sweep holds, for every user, the
  entry that \<open>swept_entry\<close> gives.
\<close>

theorem stream_gc_sweep:
  "(now < lastCleanUpTime n + Minute \<longrightarrow> removeEmptyUserStreams now n = n) \<and>
   (lastCleanUpTime n + Minute \<le> now \<and> unique_keys (userDeviceStreams n) \<longrightarrow>
      userDeviceStreams (removeEmptyUserStreams now n) =
        List.map_filter (swept_entry (store n) now) (userDeviceStreams n) \<and>
      (\<forall>u d. lookup_stream (userDeviceStreams (removeEmptyUserStreams now n)) u d =
         (case lookup_stream (userDeviceStreams n) u d of
            None \<Rightarrow> None
          | Some a \<Rightarrow> if stale (store n) now a then None else Some a)) \<and>
      (\<forall>u. map_of (userDeviceStreams (removeEmptyUserStreams now n)) u =
         (case map_of (userDeviceStreams n) u of
            None \<Rightarrow> None
          | Some t \<Rightarrow> map_option snd (swept_entry (store n) now (u, t)))) \<and>
      lastCleanUpTime (removeEmptyUserStreams now n) = now \<and>
      (\<forall>now'. now' < now + Minute \<longrightarrow>
         removeEmptyUserStreams now' (removeEmptyUserStreams now n) =
           removeEmptyUserStreams now n))"
proof -
  have a: "now < lastCleanUpTime n + Minute \<Longrightarrow> removeEmptyUserStreams now n = n"
    by (simp add: removeEmptyUserStreams_def)
  have b: "lastCleanUpTime (removeEmptyUserStreams now n) = now"
    "\<forall>now'. now' < now + Minute \<longrightarrow>
         removeEmptyUserStreams now' (removeEmptyUserStreams now n) = removeEmptyUserStreams now n"
    if "lastCleanUpTime n + Minute \<le> now"
    using that by (simp_all add: removeEmptyUserStreams_def)
  have c: "userDeviceStreams (removeEmptyUserStreams now n) =
        List.map_filter (swept_entry (store n) now) (userDeviceStreams n)"
    if "lastCleanUpTime n + Minute \<le> now" "unique_keys (userDeviceStreams n)"
    using that removeEmptyUserStreams_swept by simp
  have d: "lookup_stream (userDeviceStreams (removeEmptyUserStreams now n)) u d =
         (case lookup_stream (userDeviceStreams n) u d of
            None \<Rightarrow> None
          | Some a \<Rightarrow> if stale (store n) now a then None else Some a)"
    if "lastCleanUpTime n + Minute \<le> now" "unique_keys (userDeviceStreams n)" for u d
    unfolding c [OF that] by (rule lookup_stream_swept [OF that(2)])
  have e: "map_of (userDeviceStreams (removeEmptyUserStreams now n)) u =
         (case map_of (userDeviceStreams n) u of
            None \<Rightarrow> None
          | Some t \<Rightarrow> map_option snd (swept_entry (store n) now (u, t)))"
    if "lastCleanUpTime n + Minute \<le> now" "unique_keys (userDeviceStreams n)" for u
    unfolding c [OF that] using that(2) by (intro map_of_swept) (simp add: unique_keys_def)
  show ?thesis using a b c d e by blast
qed

theorem stream_gc_sweep_witness:
  "lastCleanUpTime notifier1 + Minute \<le> 10 * Minute \<and>
   unique_keys (userDeviceStreams notifier1) \<and>
   userDeviceStreams notifier1 = [(''u1'', [(''d1'', 0), (''d2'', 1)]), (''u2'', [(''d1'', 2)])] \<and>
   userDeviceStreams (removeEmptyUserStreams (10 * Minute) notifier1) = [(''u1'', [(''d2'', 1)])] \<and>
   lastCleanUpTime (removeEmptyUserStreams (10 * Minute) notifier1) = 10 * Minute \<and>
   1 < lastCleanUpTime notifier1 + Minute \<and>
   removeEmptyUserStreams 1 notifier1 = notifier1"
proof -
  have t: "lastCleanUpTime notifier1 + Minute \<le> 10 * Minute" "1 < lastCleanUpTime notifier1 + Minute"
    by (simp_all add: notifier1_def notifier0_def Minute_def)
  have u: "unique_keys (userDeviceStreams notifier1)"
    by (simp add: notifier1_def notifier0_def unique_keys_def)
  have r: "userDeviceStreams notifier1 = [(''u1'', [(''d1'', 0), (''d2'', 1)]), (''u2'', [(''d1'', 2)])]"
    by (simp add: notifier1_def notifier0_def)
  have m: "List.map_filter (swept_entry (store notifier1) (10 * Minute))
      [(''u1'', [(''d1'', 0), (''d2'', 1)]), (''u2'', [(''d1'', 2)])] = [(''u1'', [(''d2'', 1)])]"
    by (simp add: notifier1_def notifier0_def swept_entry_def kept_def stale_def
        TimeOfLastNonEmpty_def NewUserDeviceStream_def Minute_def)
  from stream_gc_sweep [of "10 * Minute" notifier1] t(1) u
  have "userDeviceStreams (removeEmptyUserStreams (10 * Minute) notifier1) =
        List.map_filter (swept_entry (store notifier1) (10 * Minute)) (userDeviceStreams notifier1)"
    and "lastCleanUpTime (removeEmptyUserStreams (10 * Minute) notifier1) = 10 * Minute"
    by blast+
  moreover from stream_gc_sweep [of 1 notifier1] t(2)
  have "removeEmptyUserStreams 1 notifier1 = notifier1" by blast
  ultimately show ?thesis using t u r m by simp
qed

subsection \<open>The streams of the named devices, and the others\<close>

lemma broadcast_at_registry:
  "lookup_stream (userDeviceStreams (broadcast_at a p now n)) u d = lookup_stream (userDeviceStreams n) u d"
  by (simp add: broadcast_at_frame)

lemma wakeupUserDevice_broadcasts:
  "broadcasts (fst (wakeupUserDevice u ds p now n)) =
     map (\<lambda>a. (a, p)) (List.map_filter (lookup_stream (userDeviceStreams n) u) ds)"
proof (induction ds arbitrary: n)
  case Nil
  show ?case by simp
next
  case (Cons d ds)
  show ?case
  proof (cases "lookup_stream (userDeviceStreams n) u d")
    case None
    then show ?thesis
      unfolding wakeupUserDevice_Cons_fst using Cons.IH [of n] by (simp add: lookup_stream_def)
  next
    case (Some a)
    then show ?thesis
      unfolding wakeupUserDevice_Cons_fst using Cons.IH [of "broadcast_at a p now n"]
      by (simp add: lookup_stream_def broadcast_at_frame)
  qed
qed

lemma broadcast_at_other: "b \<noteq> a \<Longrightarrow> store (broadcast_at a p now n) ! b = store n ! b"
  by (simp add: broadcast_at_def)

lemma wakeupUserDevice_store_other:
  "b \<notin> set (List.map_filter (lookup_stream (userDeviceStreams n) u) ds) \<Longrightarrow>
   store (snd (wakeupUserDevice u ds p now n)) ! b = store n ! b"
proof (induction ds arbitrary: n)
  case Nil
  show ?case by simp
next
  case (Cons d ds)
  show ?case
  proof (cases "lookup_stream (userDeviceStreams n) u d")
    case None
    then show ?thesis
      unfolding wakeupUserDevice_Cons_snd using Cons.IH [of n] Cons.prems
      by (simp add: lookup_stream_def)
  next
    case (Some a)
    have ne: "b \<noteq> a" using Cons.prems Some by auto
    have "b \<notin> set (List.map_filter (lookup_stream (userDeviceStreams (broadcast_at a p now n)) u) ds)"
      using Cons.prems Some by (simp add: broadcast_at_frame)
    from Cons.IH [OF this] Some ne show ?thesis
      unfolding wakeupUserDevice_Cons_snd
      by (simp add: lookup_stream_def broadcast_at_other)
  qed
qed

lemma lookup_stream_Cons:
  "lookup_stream ((u0, t0) # reg) u d = (if u = u0 then map_of t0 d else lookup_stream reg u d)"
  by (simp add: lookup_stream_def devices_of_def)

lemma lookup_stream_in_reg_addrs:
  "lookup_stream reg u d = Some a \<Longrightarrow> a \<in> set (reg_addrs reg)"
proof (induction reg)
  case Nil
  then show ?case by (simp add: lookup_stream_def devices_of_def)
next
  case (Cons ut reg)
  obtain u0 t0 where ut: "ut = (u0, t0)" by (cases ut)
  show ?case
  proof (cases "u = u0")
    case True
    then have "map_of t0 d = Some a" using Cons.prems ut by (simp add: lookup_stream_Cons)
    then have "(d, a) \<in> set t0" by (rule map_of_SomeD)
    then have "a \<in> snd ` set t0" by force
    then show ?thesis using ut by (simp add: reg_addrs_def)
  next
    case False
    then have "lookup_stream reg u d = Some a" using Cons.prems ut by (simp add: lookup_stream_Cons)
    then have "a \<in> set (reg_addrs reg)" by (rule Cons.IH)
    then show ?thesis by (simp add: reg_addrs_def)
  qed
qed

lemma map_of_distinct_values:
  assumes "distinct (map snd t)" "map_of t d = Some a" "map_of t d' = Some a"
  shows "d = d'"
proof -
  have "(d, a) \<in> set t" "(d', a) \<in> set t" using assms(2,3) by (auto dest: map_of_SomeD)
  moreover have "inj_on snd (set t)" using assms(1) by (simp add: distinct_map)
  ultimately have "(d, a) = (d', a)" by (intro inj_onD [of snd "set t"]) simp_all
  then show ?thesis by simp
qed

lemma lookup_stream_inj:
  "distinct (reg_addrs reg) \<Longrightarrow> lookup_stream reg u d = Some a \<Longrightarrow>
   lookup_stream reg u' d' = Some a \<Longrightarrow> u = u' \<and> d = d'"
proof (induction reg)
  case Nil
  then show ?case by (simp add: lookup_stream_def devices_of_def)
next
  case (Cons ut reg)
  obtain u0 t0 where ut: "ut = (u0, t0)" by (cases ut)
  have dist: "distinct (map snd t0)" "distinct (reg_addrs reg)"
    "snd ` set t0 \<inter> set (reg_addrs reg) = {}"
    using Cons.prems(1) ut by (simp_all add: reg_addrs_def)
  have in_t0: "a \<in> snd ` set t0" if "map_of t0 x = Some a" for x
    using map_of_SomeD [OF that] by force
  show ?case
  proof (cases "u = u0")
    case True
    then have a1: "map_of t0 d = Some a" using Cons.prems(2) ut by (simp add: lookup_stream_Cons)
    show ?thesis
    proof (cases "u' = u0")
      case True
      then have "map_of t0 d' = Some a" using Cons.prems(3) ut by (simp add: lookup_stream_Cons)
      with a1 dist(1) have "d = d'" by (intro map_of_distinct_values [of t0 d a d'])
      then show ?thesis using True \<open>u = u0\<close> by simp
    next
      case False
      then have "lookup_stream reg u' d' = Some a"
        using Cons.prems(3) ut by (simp add: lookup_stream_Cons)
      then have "a \<in> set (reg_addrs reg)" by (rule lookup_stream_in_reg_addrs)
      then show ?thesis using in_t0 [OF a1] dist(3) by auto
    qed
  next
    case False
    then have a1: "lookup_stream reg u d = Some a"
      using Cons.prems(2) ut by (simp add: lookup_stream_Cons)
    show ?thesis
    proof (cases "u' = u0")
      case True
      then have "map_of t0 d' = Some a" using Cons.prems(3) ut by (simp add: lookup_stream_Cons)
      then show ?thesis using in_t0 lookup_stream_in_reg_addrs [OF a1] dist(3) by auto
    next
      case False
      then have "lookup_stream reg u' d' = Some a"
        using Cons.prems(3) ut by (simp add: lookup_stream_Cons)
      with dist(2) a1 show ?thesis by (rule Cons.IH)
    qed
  qed
qed

subsection \<open>One stream per user and device\<close>

lemma lookup_stream_Some_user:
  "lookup_stream reg u d = Some a \<Longrightarrow> map_of reg u \<noteq> None"
  by (cases "map_of reg u") (simp_all add: lookup_stream_def devices_of_def)

lemma fetch_make_existing:
  assumes "lookup_stream (userDeviceStreams n) u d = Some a"
  shows "fetchUserDeviceStream u d True now n = (Some a, n)"
proof -
  have "map_of (userDeviceStreams n) u \<noteq> None" using assms by (rule lookup_stream_Some_user)
  then obtain t where t: "map_of (userDeviceStreams n) u = Some t" by auto
  have "map_of (devices_of (userDeviceStreams n) u) d = Some a"
    using assms by (simp add: lookup_stream_def)
  then show ?thesis
    by (simp add: fetchUserDeviceStream_def Let_def t)
qed

text \<open>The registry in which the stream of a new device is entered: the user has a table.\<close>

lemma devices_of_update_empty:
  "map_of reg u = None \<Longrightarrow> devices_of (AList.update u [] reg) u' = devices_of reg u'"
  by (simp add: devices_of_def update_conv')

lemma lookup_stream_create:
  assumes "map_of reg u \<noteq> None"
  shows "lookup_stream (AList.map_entry u (AList.update d a) reg) u' d' =
     (if u' = u \<and> d' = d then Some a else lookup_stream reg u' d')"
proof -
  obtain t where t: "map_of reg u = Some t" using assms by auto
  then have "devices_of reg u = t" by (simp add: devices_of_def)
  then show ?thesis using t
    by (simp add: lookup_stream_def devices_of_map_entry update_conv')
qed

lemma fetch_make_new:
  assumes "lookup_stream (userDeviceStreams n) u d = None"
  shows "fst (fetchUserDeviceStream u d True now n) = Some (length (store n))"
    and "store (snd (fetchUserDeviceStream u d True now n)) =
      store n @ [NewUserDeviceStream u d (currPos n) now]"
    and "lookup_stream (userDeviceStreams (snd (fetchUserDeviceStream u d True now n))) u' d' =
      (if u' = u \<and> d' = d then Some (length (store n)) else lookup_stream (userDeviceStreams n) u' d')"
    and "userDeviceStreams (snd (fetchUserDeviceStream u d True now n)) =
      AList.map_entry u (AList.update d (length (store n)))
        (if map_of (userDeviceStreams n) u = None then AList.update u [] (userDeviceStreams n)
         else userDeviceStreams n)"
    and "currPos (snd (fetchUserDeviceStream u d True now n)) = currPos n"
    and "roomIDToJoinedUsers (snd (fetchUserDeviceStream u d True now n)) = roomIDToJoinedUsers n"
    and "lastCleanUpTime (snd (fetchUserDeviceStream u d True now n)) = lastCleanUpTime n"
proof -
  let ?reg = "if map_of (userDeviceStreams n) u = None then AList.update u [] (userDeviceStreams n)
         else userDeviceStreams n"
  have dv: "devices_of ?reg u' = devices_of (userDeviceStreams n) u'" for u'
    by (simp add: devices_of_update_empty)
  have none: "map_of (devices_of ?reg u) d = None"
    unfolding dv using assms by (simp add: lookup_stream_def)
  have ex: "map_of ?reg u \<noteq> None" by (simp add: update_conv')
  have eq: "fetchUserDeviceStream u d True now n =
      (Some (length (store n)),
       n\<lparr>userDeviceStreams := AList.map_entry u (AList.update d (length (store n))) ?reg,
         store := store n @ [NewUserDeviceStream u d (currPos n) now]\<rparr>)"
    using none by (simp add: fetchUserDeviceStream_def Let_def)
  show "fst (fetchUserDeviceStream u d True now n) = Some (length (store n))"
    and "store (snd (fetchUserDeviceStream u d True now n)) =
      store n @ [NewUserDeviceStream u d (currPos n) now]"
    and "userDeviceStreams (snd (fetchUserDeviceStream u d True now n)) =
      AList.map_entry u (AList.update d (length (store n))) ?reg"
    and "currPos (snd (fetchUserDeviceStream u d True now n)) = currPos n"
    and "roomIDToJoinedUsers (snd (fetchUserDeviceStream u d True now n)) = roomIDToJoinedUsers n"
    and "lastCleanUpTime (snd (fetchUserDeviceStream u d True now n)) = lastCleanUpTime n"
    unfolding eq by simp_all
  have "lookup_stream (AList.map_entry u (AList.update d (length (store n))) ?reg) u' d' =
      (if u' = u \<and> d' = d then Some (length (store n)) else lookup_stream ?reg u' d')"
    using ex by (rule lookup_stream_create)
  then show "lookup_stream (userDeviceStreams (snd (fetchUserDeviceStream u d True now n))) u' d' =
      (if u' = u \<and> d' = d then Some (length (store n)) else lookup_stream (userDeviceStreams n) u' d')"
    unfolding eq by (simp add: lookup_stream_def dv)
qed

lemma GetListener_existing:
  assumes "lookup_stream (userDeviceStreams (removeEmptyUserStreams now n)) u d = Some a"
  shows "bound_stream (GetListener now u d n) = Some a"
    and "userDeviceStreams (snd (GetListener now u d n)) =
      userDeviceStreams (removeEmptyUserStreams now n)"
    and "length (store (snd (GetListener now u d n))) = length (store n)"
  using fetch_make_existing [OF assms, of now]
  by (simp_all add: GetListener_def bound_stream_def stream_GetListener_def
      removeEmptyUserStreams_frame)

lemma GetListener_new:
  assumes "lookup_stream (userDeviceStreams (removeEmptyUserStreams now n)) u d = None"
  shows "bound_stream (GetListener now u d n) = Some (length (store n))"
    and "lookup_stream (userDeviceStreams (snd (GetListener now u d n))) u' d' =
      (if u' = u \<and> d' = d then Some (length (store n))
       else lookup_stream (userDeviceStreams (removeEmptyUserStreams now n)) u' d')"
    and "length (store (snd (GetListener now u d n))) = length (store n) + 1"
proof -
  let ?n1 = "removeEmptyUserStreams now n"
  obtain n2 where f: "fetchUserDeviceStream u d True now ?n1 = (Some (length (store n)), n2)"
    using fetch_make_new(1) [OF assms, of now]
    by (cases "fetchUserDeviceStream u d True now ?n1") (simp add: removeEmptyUserStreams_frame)
  have n2: "store n2 = store n @ [NewUserDeviceStream u d (currPos ?n1) now]"
    "lookup_stream (userDeviceStreams n2) u' d' =
      (if u' = u \<and> d' = d then Some (length (store n))
       else lookup_stream (userDeviceStreams ?n1) u' d')"
    using fetch_make_new(2,3) [OF assms, of now] f by (simp_all add: removeEmptyUserStreams_frame)
  show "bound_stream (GetListener now u d n) = Some (length (store n))"
    by (simp add: GetListener_def f bound_stream_def stream_GetListener_def)
  show "lookup_stream (userDeviceStreams (snd (GetListener now u d n))) u' d' =
      (if u' = u \<and> d' = d then Some (length (store n))
       else lookup_stream (userDeviceStreams ?n1) u' d')"
    using n2(2) by (simp add: GetListener_def f stream_GetListener_def)
  show "length (store (snd (GetListener now u d n))) = length (store n) + 1"
    using n2(1) by (simp add: GetListener_def f stream_GetListener_def)
qed

lemma GetListener_returns: "\<exists>l. fst (GetListener now u d n) = Some l"
proof (cases "lookup_stream (userDeviceStreams (removeEmptyUserStreams now n)) u d")
  case None
  from GetListener_new(1) [OF this] show ?thesis by (auto simp: bound_stream_def)
next
  case (Some a)
  from GetListener_existing(1) [OF this] show ?thesis by (auto simp: bound_stream_def)
qed

lemma GetListener_binds:
  "lookup_stream (userDeviceStreams (snd (GetListener now u d n))) u d =
     bound_stream (GetListener now u d n)"
proof (cases "lookup_stream (userDeviceStreams (removeEmptyUserStreams now n)) u d")
  case None
  from GetListener_new(1,2) [OF this] show ?thesis by simp
next
  case (Some a)
  from GetListener_existing(1,2) [OF this] Some show ?thesis by simp
qed

lemma GetListener_keeps:
  assumes "lookup_stream (userDeviceStreams (removeEmptyUserStreams now n)) u' d' = Some a"
  shows "lookup_stream (userDeviceStreams (snd (GetListener now u d n))) u' d' = Some a"
proof (cases "lookup_stream (userDeviceStreams (removeEmptyUserStreams now n)) u d")
  case None
  with assms have "\<not> (u' = u \<and> d' = d)" by auto
  with GetListener_new(2) [OF None, of u' d'] assms show ?thesis by simp
next
  case (Some b)
  from GetListener_existing(2) [OF this] assms show ?thesis by simp
qed

lemma apply_call_keeps:
  assumes "lookup_stream (userDeviceStreams n) u d = Some a" "\<not> evicts c n u d"
  shows "lookup_stream (userDeviceStreams (apply_call c n)) u d = Some a"
proof -
  have sw: "lookup_stream (userDeviceStreams (removeEmptyUserStreams now n)) u d = Some a"
    if "lookup_stream (userDeviceStreams (removeEmptyUserStreams now n)) u d \<noteq> None" for now
    using that removeEmptyUserStreams_lookup [of now n u d] assms(1) by auto
  show ?thesis
  proof (cases c)
    case (Ingress i)
    show ?thesis
    proof (cases i)
      case (CallOnNewEvent now ev r us p)
      then show ?thesis using assms sw [of now] Ingress
        by (simp add: evicts_def OnNewEvent_registry)
    next
      case (CallOnNewSendToDevice now u' ds p)
      then show ?thesis using assms Ingress by (simp add: OnNewSendToDevice_registry)
    next
      case (CallOnNewKeyChange now p w k)
      then show ?thesis using assms Ingress by (simp add: OnNewKeyChange_registry)
    qed
  next
    case (CallGetListener now u' d')
    then have "lookup_stream (userDeviceStreams (removeEmptyUserStreams now n)) u d = Some a"
      using assms sw [of now] by (simp add: evicts_def)
    then show ?thesis using CallGetListener by (simp add: GetListener_keeps)
  qed
qed

lemma run_calls_append: "run_calls (cs @ cs') n = run_calls cs' (run_calls cs n)"
  by (induction cs arbitrary: n) simp_all

lemma no_eviction_append:
  "no_eviction u d (cs @ cs') n \<longleftrightarrow> no_eviction u d cs n \<and> no_eviction u d cs' (run_calls cs n)"
  by (induction cs arbitrary: n) auto

lemma run_calls_keeps:
  "lookup_stream (userDeviceStreams n) u d = Some a \<Longrightarrow> no_eviction u d cs n \<Longrightarrow>
   lookup_stream (userDeviceStreams (run_calls cs n)) u d = Some a"
proof (induction cs arbitrary: n)
  case Nil
  then show ?case by simp
next
  case (Cons c cs)
  from Cons.prems have "lookup_stream (userDeviceStreams (apply_call c n)) u d = Some a"
    by (simp add: apply_call_keeps)
  with Cons.prems Cons.IH [of "apply_call c n"] show ?case by simp
qed

lemma same_stream_again:
  assumes "no_eviction u d (cs @ [CallGetListener now2 u d]) (snd (GetListener now1 u d n))"
  shows "bound_stream (GetListener now2 u d (run_calls cs (snd (GetListener now1 u d n)))) =
     bound_stream (GetListener now1 u d n)"
proof -
  let ?n1 = "snd (GetListener now1 u d n)"
  obtain a where a: "bound_stream (GetListener now1 u d n) = Some a"
    using GetListener_returns [of now1 u d n] by (auto simp: bound_stream_def)
  then have "lookup_stream (userDeviceStreams ?n1) u d = Some a" by (simp add: GetListener_binds)
  moreover have ne: "no_eviction u d cs ?n1" "\<not> evicts (CallGetListener now2 u d) (run_calls cs ?n1) u d"
    using assms by (simp_all add: no_eviction_append)
  ultimately have k: "lookup_stream (userDeviceStreams (run_calls cs ?n1)) u d = Some a"
    by (simp add: run_calls_keeps)
  with ne(2) have "lookup_stream (userDeviceStreams (removeEmptyUserStreams now2 (run_calls cs ?n1))) u d \<noteq> None"
    by (simp add: evicts_def)
  with k removeEmptyUserStreams_lookup [of now2 "run_calls cs ?n1" u d]
  have "lookup_stream (userDeviceStreams (removeEmptyUserStreams now2 (run_calls cs ?n1))) u d = Some a"
    by auto
  from GetListener_existing(1) [OF this] a show ?thesis by simp
qed

subsection \<open>Well-formed notifiers stay well-formed\<close>

lemma wf_cong:
  "userDeviceStreams n' = userDeviceStreams n \<Longrightarrow> length (store n') = length (store n) \<Longrightarrow>
   wf n' = wf n"
  by (simp add: wf_def)

lemma update_append_notin: "k \<notin> fst ` set al \<Longrightarrow> AList.update k v al = al @ [(k, v)]"
  by (induction al) auto

lemma map_of_Some_split:
  "map_of reg u = Some t \<Longrightarrow> \<exists>A B. reg = A @ (u, t) # B \<and> u \<notin> fst ` set A"
proof (induction reg)
  case Nil
  then show ?case by simp
next
  case (Cons ut reg)
  show ?case
  proof (cases "fst ut = u")
    case True
    then have "ut = (u, t)" using Cons.prems by (cases ut) simp
    then have "ut # reg = [] @ (u, t) # reg \<and> u \<notin> fst ` set []" by simp
    then show ?thesis by blast
  next
    case False
    then have "map_of reg u = Some t" using Cons.prems by (cases ut) simp
    from Cons.IH [OF this] obtain A B where "reg = A @ (u, t) # B" "u \<notin> fst ` set A" by blast
    then have "ut # reg = (ut # A) @ (u, t) # B \<and> u \<notin> fst ` set (ut # A)" using False by auto
    then show ?thesis by blast
  qed
qed

lemma reg_addrs_append: "reg_addrs (A @ B) = reg_addrs A @ reg_addrs B"
  by (simp add: reg_addrs_def)

lemma reg_addrs_Cons: "reg_addrs (ut # B) = map snd (snd ut) @ reg_addrs B"
  by (simp add: reg_addrs_def)

lemma unique_keys_append:
  "unique_keys (A @ ut # B) \<longleftrightarrow>
     distinct (map fst (A @ ut # B)) \<and> list_all (\<lambda>ut. distinct (map fst (snd ut))) A \<and>
     distinct (map fst (snd ut)) \<and> list_all (\<lambda>ut. distinct (map fst (snd ut))) B"
  by (auto simp: unique_keys_def)

lemma wf_create:
  assumes "unique_keys reg" "distinct (reg_addrs reg)" "list_all (\<lambda>x. x < m) (reg_addrs reg)"
    "map_of reg u = Some t" "map_of t d = None"
  shows "unique_keys (AList.map_entry u (AList.update d m) reg)"
    and "distinct (reg_addrs (AList.map_entry u (AList.update d m) reg))"
    and "list_all (\<lambda>x. x < Suc m) (reg_addrs (AList.map_entry u (AList.update d m) reg))"
proof -
  obtain A B where sp: "reg = A @ (u, t) # B" "u \<notin> fst ` set A"
    using map_of_Some_split [OF assms(4)] by blast
  have dn: "d \<notin> fst ` set t" using assms(5) by (simp add: map_of_eq_None_iff)
  have new: "AList.map_entry u (AList.update d m) reg = A @ (u, t @ [(d, m)]) # B"
    unfolding sp(1) using sp(2) dn by (simp add: map_entry_at update_append_notin)
  have uk: "distinct (map fst (A @ (u, t) # B))" "list_all (\<lambda>ut. distinct (map fst (snd ut))) A"
    "distinct (map fst t)" "list_all (\<lambda>ut. distinct (map fst (snd ut))) B"
    using assms(1) unfolding sp(1) unique_keys_append by simp_all
  show "unique_keys (AList.map_entry u (AList.update d m) reg)"
    unfolding new unique_keys_append using uk dn by simp
  have ad: "distinct (reg_addrs A @ map snd t @ reg_addrs B)"
    "\<forall>x\<in>set (reg_addrs A @ map snd t @ reg_addrs B). x < m"
    using assms(2,3) unfolding sp(1) by (simp_all add: reg_addrs_append reg_addrs_Cons list_all_iff)
  have ra: "reg_addrs (AList.map_entry u (AList.update d m) reg) =
      reg_addrs A @ (map snd t @ [m]) @ reg_addrs B"
    unfolding new by (simp add: reg_addrs_append reg_addrs_Cons)
  show "distinct (reg_addrs (AList.map_entry u (AList.update d m) reg))"
    unfolding ra using ad by auto
  show "list_all (\<lambda>x. x < Suc m) (reg_addrs (AList.map_entry u (AList.update d m) reg))"
    unfolding ra using ad(2) by (auto simp: list_all_iff less_Suc_eq)
qed

lemma wf_ensure_user:
  assumes "map_of reg u = None"
  shows "unique_keys (AList.update u [] reg) = unique_keys reg"
    and "reg_addrs (AList.update u [] reg) = reg_addrs reg"
proof -
  have "u \<notin> fst ` set reg" using assms by (simp add: map_of_eq_None_iff)
  then have e: "AList.update u [] reg = reg @ [(u, [])]" by (rule update_append_notin)
  show "unique_keys (AList.update u [] reg) = unique_keys reg"
    unfolding e using \<open>u \<notin> fst ` set reg\<close> by (auto simp: unique_keys_def)
  show "reg_addrs (AList.update u [] reg) = reg_addrs reg"
    unfolding e by (simp add: reg_addrs_def)
qed

lemma wf_fetch_make:
  assumes "wf n"
  shows "wf (snd (fetchUserDeviceStream u d True now n))"
proof (cases "lookup_stream (userDeviceStreams n) u d")
  case (Some a)
  then show ?thesis using assms by (simp add: fetch_make_existing)
next
  case None
  let ?reg = "if map_of (userDeviceStreams n) u = None then AList.update u [] (userDeviceStreams n)
         else userDeviceStreams n"
  have r: "unique_keys ?reg" "reg_addrs ?reg = reg_addrs (userDeviceStreams n)"
    using assms by (simp_all add: wf_def wf_ensure_user)
  have dv: "devices_of ?reg u = devices_of (userDeviceStreams n) u"
    by (simp add: devices_of_update_empty)
  obtain t where t: "map_of ?reg u = Some t"
    by (cases "map_of (userDeviceStreams n) u") (auto simp: update_conv')
  then have "devices_of ?reg u = t" by (simp add: devices_of_def)
  then have tn: "map_of t d = None" using None dv by (simp add: lookup_stream_def)
  have a: "distinct (reg_addrs ?reg)" "list_all (\<lambda>x. x < length (store n)) (reg_addrs ?reg)"
    unfolding r(2) using assms by (simp_all add: wf_def)
  note c = wf_create [OF r(1) a t tn]
  show ?thesis
    unfolding wf_def fetch_make_new(2,4) [OF None] using c by simp
qed

lemma wf_GetListener:
  assumes "wf n"
  shows "wf (snd (GetListener now u d n))"
proof -
  let ?f = "fetchUserDeviceStream u d True now (removeEmptyUserStreams now n)"
  have w: "wf (snd ?f)"
    using assms by (intro wf_fetch_make wf_removeEmptyUserStreams)
  have "userDeviceStreams (snd (GetListener now u d n)) = userDeviceStreams (snd ?f) \<and>
      length (store (snd (GetListener now u d n))) = length (store (snd ?f))"
    by (cases ?f) (auto simp: GetListener_def stream_GetListener_def split: option.splits)
  then show ?thesis using w wf_cong by blast
qed

lemma wf_apply_ingress:
  assumes "wf n"
  shows "wf (snd (apply_ingress c n))"
proof (cases c)
  case (CallOnNewEvent now ev r us p)
  have "wf (snd (OnNewEvent now ev r us p n)) = wf (removeEmptyUserStreams now n)"
    by (rule wf_cong) (simp_all add: OnNewEvent_registry OnNewEvent_store_length
        removeEmptyUserStreams_frame)
  then show ?thesis using CallOnNewEvent assms by (simp add: wf_removeEmptyUserStreams)
next
  case (CallOnNewSendToDevice now u ds p)
  have "wf (snd (OnNewSendToDevice now u ds p n)) = wf n"
    by (rule wf_cong) (simp_all add: OnNewSendToDevice_registry)
  then show ?thesis using CallOnNewSendToDevice assms by simp
next
  case (CallOnNewKeyChange now p w k)
  have "wf (snd (OnNewKeyChange now p w k n)) = wf n"
    by (rule wf_cong) (simp_all add: OnNewKeyChange_registry)
  then show ?thesis using CallOnNewKeyChange assms by simp
qed

lemma wf_apply_call: "wf n \<Longrightarrow> wf (apply_call c n)"
  by (cases c) (simp_all add: wf_apply_ingress wf_GetListener)

lemma wf_run_calls: "wf n \<Longrightarrow> wf (run_calls cs n)"
  by (induction cs arbitrary: n) (simp_all add: wf_apply_call)

lemma wf_NewNotifier: "wf (NewNotifier p now)"
  by (simp add: wf_def NewNotifier_def unique_keys_def reg_addrs_def)

lemma wf_at_most_one:
  assumes "wf n"
  shows "length (filter (\<lambda>ut. fst ut = u) (userDeviceStreams n)) \<le> 1"
    and "length (filter (\<lambda>e. fst e = d) (devices_of (userDeviceStreams n) u)) \<le> 1"
proof -
  have k: "length (filter (\<lambda>e. fst e = x) al) \<le> 1" if "distinct (map fst al)"
    for x :: string and al :: "(string \<times> 'b) list"
    using that by (induction al) (auto simp: filter_empty_conv image_iff)
  have u: "unique_keys (userDeviceStreams n)" using assms by (simp add: wf_def)
  then show "length (filter (\<lambda>ut. fst ut = u) (userDeviceStreams n)) \<le> 1"
    by (intro k) (simp add: unique_keys_def)
  show "length (filter (\<lambda>e. fst e = d) (devices_of (userDeviceStreams n) u)) \<le> 1"
    by (intro k unique_keys_devices_of [OF u])
qed

text \<open>
  Claim C9. The notifier that \<open>NewNotifier\<close> makes is well-formed and every call keeps it
  so: at every point the registry has at most one entry per user and the table of a user at
  most one stream per device. \<open>GetListener\<close> always returns a listener. Two calls of
  \<open>GetListener\<close> for the same user and device, with any calls in between and no sweep
  evicting the stream of the device (that of the second call included), return listeners
  bound to the same stream object. A stream is made only when the registry, after the sweep
  of the call, has none for the user and device: then the listener is bound to a new object
  of the store, which the registry holds from then on; otherwise the listener is bound to
  the registered stream and no object is made.
\<close>

theorem one_stream_per_device:
  "wf (NewNotifier p0 t0) \<and>
   (wf n \<longrightarrow>
      wf (run_calls cs n) \<and>
      length (filter (\<lambda>ut. fst ut = u) (userDeviceStreams (run_calls cs n))) \<le> 1 \<and>
      length (filter (\<lambda>e. fst e = d) (devices_of (userDeviceStreams (run_calls cs n)) u)) \<le> 1) \<and>
   (\<exists>l. fst (GetListener now u d n) = Some l) \<and>
   (no_eviction u d (cs @ [CallGetListener now2 u d]) (snd (GetListener now u d n)) \<longrightarrow>
      bound_stream (GetListener now2 u d (run_calls cs (snd (GetListener now u d n)))) =
        bound_stream (GetListener now u d n)) \<and>
   (\<forall>a. lookup_stream (userDeviceStreams (removeEmptyUserStreams now n)) u d = Some a \<longrightarrow>
      bound_stream (GetListener now u d n) = Some a \<and>
      length (store (snd (GetListener now u d n))) = length (store n) \<and>
      userDeviceStreams (snd (GetListener now u d n)) =
        userDeviceStreams (removeEmptyUserStreams now n)) \<and>
   (lookup_stream (userDeviceStreams (removeEmptyUserStreams now n)) u d = None \<longrightarrow>
      bound_stream (GetListener now u d n) = Some (length (store n)) \<and>
      length (store (snd (GetListener now u d n))) = length (store n) + 1 \<and>
      lookup_stream (userDeviceStreams (snd (GetListener now u d n))) u d = Some (length (store n)))"
proof -
  have a: "wf n \<Longrightarrow>
      wf (run_calls cs n) \<and>
      length (filter (\<lambda>ut. fst ut = u) (userDeviceStreams (run_calls cs n))) \<le> 1 \<and>
      length (filter (\<lambda>e. fst e = d) (devices_of (userDeviceStreams (run_calls cs n)) u)) \<le> 1"
    using wf_at_most_one [OF wf_run_calls [of n cs]] wf_run_calls [of n cs] by simp
  have b: "lookup_stream (userDeviceStreams (removeEmptyUserStreams now n)) u d = None \<Longrightarrow>
      bound_stream (GetListener now u d n) = Some (length (store n)) \<and>
      length (store (snd (GetListener now u d n))) = length (store n) + 1 \<and>
      lookup_stream (userDeviceStreams (snd (GetListener now u d n))) u d = Some (length (store n))"
    using GetListener_new(1,3) [of now n u d] GetListener_new(2) [of now n u d u d] by simp
  show ?thesis
    using a b wf_NewNotifier [of p0 t0] GetListener_returns [of now u d n]
      same_stream_again [of u d cs now2 now n] GetListener_existing [of now n u d]
    by blast
qed

theorem one_stream_per_device_witness:
  "wf notifier0 \<and>
   bound_stream (GetListener 1 ''u1'' ''d1'' notifier0) = Some 0 \<and>
   no_eviction ''u1'' ''d1''
     ([Ingress (CallOnNewKeyChange 2 \<lparr>pdu = 0, sendToDevice = 0, keyChange = 4\<rparr> ''u1'' ''u1'')] @
      [CallGetListener 3 ''u1'' ''d1''])
     (snd (GetListener 1 ''u1'' ''d1'' notifier0)) \<and>
   bound_stream (GetListener 3 ''u1'' ''d1''
     (run_calls [Ingress (CallOnNewKeyChange 2 \<lparr>pdu = 0, sendToDevice = 0, keyChange = 4\<rparr> ''u1'' ''u1'')]
        (snd (GetListener 1 ''u1'' ''d1'' notifier0)))) = Some 0 \<and>
   lookup_stream (userDeviceStreams (removeEmptyUserStreams 1 notifier0)) ''u3'' ''d1'' = None \<and>
   bound_stream (GetListener 1 ''u3'' ''d1'' notifier0) = Some 3 \<and>
   length (store (snd (GetListener 1 ''u3'' ''d1'' notifier0))) = 4 \<and>
   wf (run_calls [CallGetListener 1 ''u3'' ''d1''] notifier0)"
proof -
  have w: "wf notifier0"
    by (simp add: wf_def unique_keys_def reg_addrs_def notifier0_def)
  have g: "removeEmptyUserStreams 1 notifier0 = notifier0"
    by (simp add: removeEmptyUserStreams_def notifier0_def Minute_def)
  have l: "lookup_stream (userDeviceStreams (removeEmptyUserStreams 1 notifier0)) ''u1'' ''d1'' = Some 0"
    "lookup_stream (userDeviceStreams (removeEmptyUserStreams 1 notifier0)) ''u3'' ''d1'' = None"
    unfolding g by (simp_all add: lookup_stream_def devices_of_def notifier0_def)
  have len: "length (store notifier0) = 3" by (simp add: notifier0_def)
  let ?n1 = "snd (GetListener 1 ''u1'' ''d1'' notifier0)"
  let ?c = "Ingress (CallOnNewKeyChange 2 \<lparr>pdu = 0, sendToDevice = 0, keyChange = 4\<rparr> ''u1'' ''u1'')"
  have n1: "userDeviceStreams ?n1 = userDeviceStreams notifier0" "lastCleanUpTime ?n1 = 0"
    using fetch_make_existing [OF l(1), of 1]
    by (simp_all add: GetListener_def stream_GetListener_def g) (simp add: notifier0_def)
  let ?n2 = "snd (OnNewKeyChange 2 \<lparr>pdu = 0, sendToDevice = 0, keyChange = 4\<rparr> ''u1'' ''u1'' ?n1)"
  have n2: "userDeviceStreams ?n2 = userDeviceStreams notifier0" "lastCleanUpTime ?n2 = 0"
    unfolding OnNewKeyChange_snd
    by (simp_all only: wakeupUsers_frame) (simp_all add: n1)
  have g2: "userDeviceStreams (removeEmptyUserStreams 3 ?n2) = userDeviceStreams notifier0"
    by (simp add: removeEmptyUserStreams_def n2 Minute_def)
  have ne: "no_eviction ''u1'' ''d1'' ([?c] @ [CallGetListener 3 ''u1'' ''d1'']) ?n1"
    using l(1) by (simp add: evicts_def n1 g2 g)
  note th1 = one_stream_per_device [of _ _ notifier0 "[?c]" "''u1''" "''d1''" 1 3]
  note th2 = one_stream_per_device [of _ _ notifier0 "[CallGetListener 1 ''u3'' ''d1'']" "''u3''" "''d1''" 1 3]
  from th1 l(1) have b1: "bound_stream (GetListener 1 ''u1'' ''d1'' notifier0) = Some 0" by blast
  from th1 ne b1 have b2: "bound_stream (GetListener 3 ''u1'' ''d1'' (run_calls [?c] ?n1)) = Some 0"
    by simp
  from th2 l(2) have b3: "bound_stream (GetListener 1 ''u3'' ''d1'' notifier0) = Some (length (store notifier0))"
    "length (store (snd (GetListener 1 ''u3'' ''d1'' notifier0))) = length (store notifier0) + 1"
    by blast+
  from th2 w have b4: "wf (run_calls [CallGetListener 1 ''u3'' ''d1''] notifier0)" by blast
  show ?thesis using w b1 ne b2 l(2) b3 b4 by (simp add: len)
qed

subsection \<open>What a broadcast does to the streams\<close>

lemma Broadcast_generation: "s_generation (Broadcast p now s) = s_generation s + 1"
  by (simp add: Broadcast_def)

lemma Broadcast_funpow_generation:
  "s_generation ((Broadcast p now ^^ k) s) = s_generation s + k"
  by (induction k) (simp_all add: Broadcast_generation)

lemma broadcast_at_store:
  "a < length (store n) \<Longrightarrow>
   store (broadcast_at b p now n) ! a =
     (if a = b then Broadcast p now (store n ! a) else store n ! a)"
  by (simp add: broadcast_at_def)

lemma wake_streams_store:
  "a < length (store n) \<Longrightarrow>
   store (snd (wake_streams as p now n)) ! a = (Broadcast p now ^^ count_list as a) (store n ! a)"
proof (induction as arbitrary: n)
  case Nil
  show ?case by simp
next
  case (Cons b as)
  have "a < length (store (broadcast_at b p now n))"
    using Cons.prems by (simp add: broadcast_at_frame)
  from Cons.IH [OF this] Cons.prems show ?case
    unfolding wake_streams_Cons_snd
    by (simp add: broadcast_at_store funpow_swap1)
qed

lemma funpow_twice_commute: "(f ^^ i) ((f ^^ j) x) = (f ^^ j) ((f ^^ i) x)"
proof -
  have "(f ^^ i) ((f ^^ j) x) = (f ^^ (i + j)) x" by (simp add: funpow_add)
  also have "\<dots> = (f ^^ (j + i)) x" by (simp add: add.commute)
  also have "\<dots> = (f ^^ j) ((f ^^ i) x)" by (simp add: funpow_add)
  finally show ?thesis .
qed

lemma wakeupUsers_Cons_snd:
  "snd (wakeupUsers (u # us) p now n) =
     snd (wakeupUsers us p now (snd (wake_streams (fetchUserStreams u n) p now n)))"
  by (simp add: case_prod_beta)

lemma wakeupUsers_store:
  "a < length (store n) \<Longrightarrow>
   store (snd (wakeupUsers us p now n)) ! a =
     (Broadcast p now ^^ count_list (streams_of_users n us) a) (store n ! a)"
proof (induction us arbitrary: n)
  case Nil
  show ?case by (simp add: streams_of_users_def)
next
  case (Cons u us)
  let ?n1 = "snd (wake_streams (fetchUserStreams u n) p now n)"
  have fr: "userDeviceStreams ?n1 = userDeviceStreams n" "length (store ?n1) = length (store n)"
    by (simp_all add: wake_streams_frame)
  have s: "streams_of_users ?n1 us = streams_of_users n us"
    using fr(1) by (rule streams_of_users_cong)
  have "a < length (store ?n1)" using Cons.prems fr(2) by simp
  from Cons.IH [OF this] show ?case
    unfolding wakeupUsers_Cons_snd s wake_streams_store [OF Cons.prems]
    by (simp add: streams_of_users_def funpow_add funpow_twice_commute)
qed

lemma wakeupUserDevice_store:
  "a < length (store n) \<Longrightarrow>
   store (snd (wakeupUserDevice u ds p now n)) ! a =
     (Broadcast p now ^^
        count_list (List.map_filter (lookup_stream (userDeviceStreams n) u) ds) a) (store n ! a)"
proof (induction ds arbitrary: n)
  case Nil
  show ?case by simp
next
  case (Cons d ds)
  show ?case
  proof (cases "lookup_stream (userDeviceStreams n) u d")
    case None
    then show ?thesis
      unfolding wakeupUserDevice_Cons_snd using Cons.IH [OF Cons.prems]
      by (simp add: lookup_stream_def)
  next
    case (Some b)
    have "a < length (store (broadcast_at b p now n))"
      using Cons.prems by (simp add: broadcast_at_frame)
    from Cons.IH [OF this] Some Cons.prems show ?thesis
      unfolding wakeupUserDevice_Cons_snd
      by (simp add: lookup_stream_def broadcast_at_frame broadcast_at_store funpow_swap1)
  qed
qed

lemma fetchUserStreams_lookup:
  "lookup_stream (userDeviceStreams n) u d = Some a \<Longrightarrow> a \<in> set (fetchUserStreams u n)"
proof -
  assume l: "lookup_stream (userDeviceStreams n) u d = Some a"
  then obtain t where t: "map_of (userDeviceStreams n) u = Some t"
    using lookup_stream_Some_user [OF l] by auto
  then have "map_of t d = Some a" using l by (simp add: lookup_stream_def devices_of_def)
  then have "(d, a) \<in> set t" by (rule map_of_SomeD)
  then have "a \<in> snd ` set t" by force
  then show ?thesis using t by (simp add: fetchUserStreams_def)
qed

lemma fetchUserStreams_registered:
  assumes "unique_keys (userDeviceStreams n)" "a \<in> set (fetchUserStreams u n)"
  shows "\<exists>d. lookup_stream (userDeviceStreams n) u d = Some a"
proof -
  obtain t where t: "map_of (userDeviceStreams n) u = Some t" "a \<in> snd ` set t"
    using assms(2) by (cases "map_of (userDeviceStreams n) u") (auto simp: fetchUserStreams_def)
  then obtain d where d: "(d, a) \<in> set t" by auto
  have "devices_of (userDeviceStreams n) u = t" using t(1) by (simp add: devices_of_def)
  then have "distinct (map fst t)" using unique_keys_devices_of [OF assms(1), of u] by simp
  then have "map_of t d = Some a" using d by simp
  then show ?thesis using t(1) by (auto simp: lookup_stream_def devices_of_def)
qed

lemma count_list_pos_iff: "0 < count_list xs x \<longleftrightarrow> x \<in> set xs"
  using count_list_0_iff [of xs x] by auto

lemma map_fst_tokens: "map (fst \<circ> (\<lambda>a. (a, m))) as = as"
  by (simp add: comp_def)

lemma OnNewEvent_woken:
  "woken (fst (OnNewEvent now ev r us p n)) a =
     (case spec_recipients ev r us n of
        None \<Rightarrow> 0
      | Some recipients \<Rightarrow>
          count_list (streams_of_users (snd (OnNewEvent now ev r us p n)) recipients) a)"
  unfolding woken_def OnNewEvent_broadcasts
  by (simp add: map_fst_tokens split: option.splits)

lemma OnNewEvent_store:
  assumes "a < length (store n)"
  shows "store (snd (OnNewEvent now ev r us p n)) ! a =
     (Broadcast (WithUpdates (currPos n) p) now ^^ woken (fst (OnNewEvent now ev r us p n)) a)
       (store n ! a)"
proof -
  let ?m = "WithUpdates (currPos n) p"
  let ?n2 = "removeEmptyUserStreams now (n\<lparr>currPos := ?m\<rparr>)"
  let ?n' = "snd (OnNewEvent now ev r us p n)"
  have n2: "store ?n2 = store n" "roomIDToJoinedUsers ?n2 = roomIDToJoinedUsers n"
    by (simp_all add: removeEmptyUserStreams_frame)
  have reg: "userDeviceStreams ?n' = userDeviceStreams ?n2"
    by (simp add: OnNewEvent_registry removeEmptyUserStreams_currPos_irrelevant)
  have ju: "joinedUsers x ?n2 = joinedUsers x n" for x
    using n2(2) by (rule joinedUsers_cong)
  have wake: "store (snd (wakeupUsers U ?m now k)) ! a =
      (Broadcast ?m now ^^ count_list (streams_of_users ?n' U) a) (store n ! a)"
    if "store k = store n" "userDeviceStreams k = userDeviceStreams ?n2" for U k
  proof -
    have "a < length (store k)" using assms that(1) by simp
    moreover have "streams_of_users k U = streams_of_users ?n' U"
      using that(2) reg by (simp add: streams_of_users_def fetchUserStreams_def)
    ultimately show ?thesis using wakeupUsers_store [of a k U ?m now] that(1) by simp
  qed
  show ?thesis
  proof (cases ev)
    case None
    show ?thesis
    proof (cases "spec_recipients None r us n")
      case none: None
      then have "r = []" "us = []" by (auto simp: spec_recipients_def split: if_splits)
      then show ?thesis
        unfolding None OnNewEvent_woken none
        by (simp add: OnNewEvent_None_snd Let_def n2)
    next
      case (Some R)
      have "snd (OnNewEvent now None r us p n) = snd (wakeupUsers R ?m now ?n2)"
        using Some by (auto simp: OnNewEvent_None_snd Let_def spec_recipients_def ju split: if_splits)
      then show ?thesis
        unfolding OnNewEvent_woken None Some
        using wake [of ?n2 R] n2(1) None by simp
    qed
  next
    case (Some e)
    let ?n3 = "snd (snd (usersToNotify_of e ?n2))"
    let ?R = "joinedUsers (ev_RoomID e) n @ spec_appended e"
    have n3: "store ?n3 = store n" "userDeviceStreams ?n3 = userDeviceStreams ?n2"
      by (simp_all add: usersToNotify_of_frame n2)
    have "snd (OnNewEvent now (Some e) r us p n) = snd (wakeupUsers ?R ?m now ?n3)"
      by (simp add: OnNewEvent_Some_snd Let_def usersToNotify_of_users ju)
    moreover have "spec_recipients (Some e) r us n = Some ?R" by (simp add: spec_recipients_def)
    ultimately show ?thesis
      unfolding OnNewEvent_woken Some
      using wake [OF n3, of ?R] Some by simp
  qed
qed

lemma count_list_once:
  assumes "distinct ds" "\<And>d d'. f d = Some a \<Longrightarrow> f d' = Some a \<Longrightarrow> d = d'"
  shows "count_list (List.map_filter f ds) a = (if \<exists>d\<in>set ds. f d = Some a then 1 else 0)"
  using assms(1)
proof (induction ds)
  case Nil
  show ?case by simp
next
  case (Cons d ds)
  show ?case
  proof (cases "f d = Some a")
    case True
    then have "\<not> (\<exists>d'\<in>set ds. f d' = Some a)" using assms(2) Cons.prems by auto
    then show ?thesis using Cons True by simp
  next
    case False
    then show ?thesis using Cons by (cases "f d") auto
  qed
qed

subsection \<open>Send-to-device reaches the named devices\<close>

text \<open>
  Claim C7. Every notifier that the calls reach from \<open>NewNotifier\<close> is well-formed
  (\<open>wf_NewNotifier\<close> and \<open>wf_run_calls\<close> above). In a well-formed notifier
  \<open>OnNewSendToDevice\<close> broadcasts the new current position to the streams that the registry
  holds for the listed devices of the user, and to no other. The stream of a listed device
  is an object of the store and the broadcast reaches it: the object becomes what
  \<open>Broadcast\<close> with the new position makes of it, once for every time the device is listed,
  so that its generation grows. The stream of every other device of the user and of every
  device of another user is not broadcast to and is the same object as before; the
  registry, the joined users and the time of the last sweep are unchanged, no stream is
  made, and \<open>CurrentPosition\<close> is the merge of the old position with the update.
\<close>

theorem send_to_device_narrow:
  assumes "wf n"
  shows
    "broadcasts (fst (OnNewSendToDevice now userID deviceIDs posUpdate n)) =
       map (\<lambda>a. (a, WithUpdates (currPos n) posUpdate))
         (List.map_filter (lookup_stream (userDeviceStreams n) userID) deviceIDs) \<and>
     (\<forall>u d a. lookup_stream (userDeviceStreams n) u d = Some a \<and>
        (u \<noteq> userID \<or> d \<notin> set deviceIDs) \<longrightarrow>
          a \<notin> fst ` set (broadcasts (fst (OnNewSendToDevice now userID deviceIDs posUpdate n))) \<and>
          store (snd (OnNewSendToDevice now userID deviceIDs posUpdate n)) ! a = store n ! a) \<and>
     userDeviceStreams (snd (OnNewSendToDevice now userID deviceIDs posUpdate n)) =
       userDeviceStreams n \<and>
     roomIDToJoinedUsers (snd (OnNewSendToDevice now userID deviceIDs posUpdate n)) =
       roomIDToJoinedUsers n \<and>
     lastCleanUpTime (snd (OnNewSendToDevice now userID deviceIDs posUpdate n)) =
       lastCleanUpTime n \<and>
     length (store (snd (OnNewSendToDevice now userID deviceIDs posUpdate n))) = length (store n) \<and>
     CurrentPosition (snd (OnNewSendToDevice now userID deviceIDs posUpdate n)) =
       WithUpdates (CurrentPosition n) posUpdate \<and>
     (\<forall>a. a < length (store n) \<longrightarrow>
        store (snd (OnNewSendToDevice now userID deviceIDs posUpdate n)) ! a =
          (Broadcast (WithUpdates (currPos n) posUpdate) now ^^
             woken (fst (OnNewSendToDevice now userID deviceIDs posUpdate n)) a) (store n ! a)) \<and>
     (\<forall>d a. d \<in> set deviceIDs \<and> lookup_stream (userDeviceStreams n) userID d = Some a \<longrightarrow>
        (a, WithUpdates (currPos n) posUpdate) \<in>
          set (broadcasts (fst (OnNewSendToDevice now userID deviceIDs posUpdate n))) \<and>
        a < length (store n) \<and>
        0 < woken (fst (OnNewSendToDevice now userID deviceIDs posUpdate n)) a \<and>
        s_generation (store (snd (OnNewSendToDevice now userID deviceIDs posUpdate n)) ! a) =
          s_generation (store n ! a) +
          woken (fst (OnNewSendToDevice now userID deviceIDs posUpdate n)) a \<and>
        (distinct deviceIDs \<longrightarrow>
           store (snd (OnNewSendToDevice now userID deviceIDs posUpdate n)) ! a =
             Broadcast (WithUpdates (currPos n) posUpdate) now (store n ! a)))"
proof -
  let ?m = "WithUpdates (currPos n) posUpdate"
  let ?n1 = "n\<lparr>currPos := ?m\<rparr>"
  let ?tr = "fst (OnNewSendToDevice now userID deviceIDs posUpdate n)"
  let ?n' = "snd (OnNewSendToDevice now userID deviceIDs posUpdate n)"
  let ?targets = "List.map_filter (lookup_stream (userDeviceStreams n) userID) deviceIDs"
  have bc: "broadcasts ?tr = map (\<lambda>a. (a, ?m)) ?targets"
    unfolding OnNewSendToDevice_fst using wakeupUserDevice_broadcasts [of userID deviceIDs ?m now ?n1]
    by simp
  have wk: "woken ?tr a = count_list ?targets a" for a
    unfolding woken_def bc by (simp add: map_fst_tokens)
  have inj: "distinct (reg_addrs (userDeviceStreams n))" using assms by (simp add: wf_def)
  have other: "a \<notin> set ?targets"
    if "lookup_stream (userDeviceStreams n) u d = Some a" "u \<noteq> userID \<or> d \<notin> set deviceIDs"
    for u d a
  proof
    assume "a \<in> set ?targets"
    then obtain d' where d': "d' \<in> set deviceIDs" "lookup_stream (userDeviceStreams n) userID d' = Some a"
      by (auto simp: map_filter_def)
    from lookup_stream_inj [OF inj that(1) d'(2)] d'(1) that(2) show False by auto
  qed
  have st: "store ?n' ! a = store n ! a" if "a \<notin> set ?targets" for a
    unfolding OnNewSendToDevice_snd
    using wakeupUserDevice_store_other [of a ?n1 userID deviceIDs ?m now] that by simp
  have fr: "userDeviceStreams ?n' = userDeviceStreams n"
    "roomIDToJoinedUsers ?n' = roomIDToJoinedUsers n"
    "lastCleanUpTime ?n' = lastCleanUpTime n"
    "length (store ?n') = length (store n)"
    unfolding OnNewSendToDevice_snd by (simp_all add: wakeupUserDevice_frame)
  have cp: "CurrentPosition ?n' = WithUpdates (CurrentPosition n) posUpdate"
    by (simp add: CurrentPosition_def OnNewSendToDevice_currPos)
  have nb: "a \<notin> fst ` set (broadcasts ?tr)" if "a \<notin> set ?targets" for a
    unfolding bc using that by (auto simp: image_iff)
  have eff: "store ?n' ! a = (Broadcast ?m now ^^ woken ?tr a) (store n ! a)"
    if "a < length (store n)" for a
    unfolding OnNewSendToDevice_snd wk
    using wakeupUserDevice_store [of a ?n1 userID deviceIDs ?m now] that by simp
  have listed: "(a, ?m) \<in> set (broadcasts ?tr) \<and> a < length (store n) \<and> 0 < woken ?tr a \<and>
      s_generation (store ?n' ! a) = s_generation (store n ! a) + woken ?tr a \<and>
      (distinct deviceIDs \<longrightarrow> store ?n' ! a = Broadcast ?m now (store n ! a))"
    if "d \<in> set deviceIDs" "lookup_stream (userDeviceStreams n) userID d = Some a" for d a
  proof -
    have mem: "a \<in> set ?targets" using that by (force simp: map_filter_def)
    have "a \<in> set (reg_addrs (userDeviceStreams n))"
      using that(2) by (rule lookup_stream_in_reg_addrs)
    then have len: "a < length (store n)" using assms by (auto simp: wf_def list_all_iff)
    have pos: "0 < woken ?tr a" unfolding wk using mem by (simp add: count_list_pos_iff)
    have gen: "s_generation (store ?n' ! a) = s_generation (store n ! a) + woken ?tr a"
      unfolding eff [OF len] by (rule Broadcast_funpow_generation)
    have one: "woken ?tr a = 1" if "distinct deviceIDs"
    proof -
      have "count_list ?targets a =
          (if \<exists>d\<in>set deviceIDs. lookup_stream (userDeviceStreams n) userID d = Some a then 1 else 0)"
        using that lookup_stream_inj [OF inj] by (intro count_list_once) auto
      then show ?thesis unfolding wk using \<open>d \<in> set deviceIDs\<close>
          \<open>lookup_stream (userDeviceStreams n) userID d = Some a\<close> by auto
    qed
    have "store ?n' ! a = Broadcast ?m now (store n ! a)" if "distinct deviceIDs"
      unfolding eff [OF len] one [OF that] by simp
    then show ?thesis using mem len pos gen unfolding bc by auto
  qed
  show ?thesis
    using bc fr cp other st nb eff listed by blast
qed

theorem send_to_device_narrow_witness:
  "wf notifier0 \<and>
   broadcasts (fst (OnNewSendToDevice 1 ''u1'' [''d2'']
      \<lparr>pdu = 0, sendToDevice = 9, keyChange = 0\<rparr> notifier0)) =
     [(1, \<lparr>pdu = 3, sendToDevice = 9, keyChange = 0\<rparr>)] \<and>
   lookup_stream (userDeviceStreams notifier0) ''u1'' ''d1'' = Some 0 \<and>
   store (snd (OnNewSendToDevice 1 ''u1'' [''d2'']
      \<lparr>pdu = 0, sendToDevice = 9, keyChange = 0\<rparr> notifier0)) ! 0 = store notifier0 ! 0 \<and>
   CurrentPosition (snd (OnNewSendToDevice 1 ''u1'' [''d2'']
      \<lparr>pdu = 0, sendToDevice = 9, keyChange = 0\<rparr> notifier0)) =
     \<lparr>pdu = 3, sendToDevice = 9, keyChange = 0\<rparr> \<and>
   lookup_stream (userDeviceStreams notifier0) ''u1'' ''d2'' = Some 1 \<and>
   store notifier0 ! 1 =
     \<lparr>s_UserID = ''u1'', s_DeviceID = ''d2'', s_pos = \<lparr>pdu = 3, sendToDevice = 7, keyChange = 0\<rparr>,
      s_generation = 0, s_timeOfLastNonEmpty = 0\<rparr> \<and>
   store (snd (OnNewSendToDevice 1 ''u1'' [''d2'']
      \<lparr>pdu = 0, sendToDevice = 9, keyChange = 0\<rparr> notifier0)) ! 1 =
     \<lparr>s_UserID = ''u1'', s_DeviceID = ''d2'', s_pos = \<lparr>pdu = 3, sendToDevice = 9, keyChange = 0\<rparr>,
      s_generation = 1, s_timeOfLastNonEmpty = 1\<rparr>"
proof -
  let ?p = "\<lparr>pdu = 0, sendToDevice = 9, keyChange = 0\<rparr>"
  let ?m = "\<lparr>pdu = 3, sendToDevice = 9, keyChange = 0\<rparr>"
  have w: "wf notifier0"
    by (simp add: wf_def unique_keys_def reg_addrs_def notifier0_def)
  have l: "lookup_stream (userDeviceStreams notifier0) ''u1'' ''d1'' = Some 0"
    "lookup_stream (userDeviceStreams notifier0) ''u1'' ''d2'' = Some 1"
    by (simp_all add: lookup_stream_def devices_of_def notifier0_def)
  have m: "WithUpdates (currPos notifier0) ?p = ?m"
    by (simp add: notifier0_def pos0_def WithUpdates_def merge_dim_def)
  have s1: "store notifier0 ! 1 =
     \<lparr>s_UserID = ''u1'', s_DeviceID = ''d2'', s_pos = \<lparr>pdu = 3, sendToDevice = 7, keyChange = 0\<rparr>,
      s_generation = 0, s_timeOfLastNonEmpty = 0\<rparr>"
    by (simp add: notifier0_def pos0_def NewUserDeviceStream_def)
  note th = send_to_device_narrow [OF w, of 1 "''u1''" "[''d2'']" ?p]
  from th have a: "broadcasts (fst (OnNewSendToDevice 1 ''u1'' [''d2''] ?p notifier0)) = [(1, ?m)]"
    by (simp add: l m)
  from th l(1) have b: "store (snd (OnNewSendToDevice 1 ''u1'' [''d2''] ?p notifier0)) ! 0 =
      store notifier0 ! 0"
    by auto
  from th have c: "CurrentPosition (snd (OnNewSendToDevice 1 ''u1'' [''d2''] ?p notifier0)) = ?m"
    by (simp add: CurrentPosition_def m)
  have "''d2'' \<in> set [''d2''] \<and> lookup_stream (userDeviceStreams notifier0) ''u1'' ''d2'' = Some 1 \<and>
      distinct [''d2'']"
    using l(2) by simp
  with th have "store (snd (OnNewSendToDevice 1 ''u1'' [''d2''] ?p notifier0)) ! 1 =
      Broadcast (WithUpdates (currPos notifier0) ?p) 1 (store notifier0 ! 1)"
    by blast
  then have d: "store (snd (OnNewSendToDevice 1 ''u1'' [''d2''] ?p notifier0)) ! 1 =
     \<lparr>s_UserID = ''u1'', s_DeviceID = ''d2'', s_pos = ?m, s_generation = 1,
      s_timeOfLastNonEmpty = 1\<rparr>"
    unfolding m s1 by (simp add: Broadcast_def newer_def)
  show ?thesis using w a l b c s1 d by simp
qed

subsection \<open>A membership that does not parse\<close>

lemma streams_of_users_lookup:
  "u \<in> set us \<Longrightarrow> lookup_stream (userDeviceStreams n) u d = Some a \<Longrightarrow>
   a \<in> set (streams_of_users n us)"
  using fetchUserStreams_lookup [of n u d a] by (auto simp: streams_of_users_def)

lemma streams_of_users_registered:
  assumes "unique_keys (userDeviceStreams n)" "a \<in> set (streams_of_users n us)"
  shows "\<exists>u\<in>set us. \<exists>d. lookup_stream (userDeviceStreams n) u d = Some a"
proof -
  obtain u where "u \<in> set us" "a \<in> set (fetchUserStreams u n)"
    using assms(2) by (auto simp: streams_of_users_def)
  then show ?thesis using fetchUserStreams_registered [OF assms(1)] by blast
qed

text \<open>
  Claim C6. When the membership of a membership event fails to parse, \<open>OnNewEvent\<close> logs
  the error and leaves the membership index unchanged, and it still wakes every device
  stream of the users joined to the room before the call, with the new current position:
  every stream that the registry holds for a device of such a user is broadcast to, the
  object in the store becomes what \<open>Broadcast\<close> with the new position makes of it (so its
  generation grows), and in a well-formed notifier no other stream is broadcast to. (The
  registry is the one the call leaves: that of before the call, unless the sweep of this
  call ran.)
\<close>

theorem unparsed_membership_still_fans_out:
  assumes "ev_Type e = ''m.room.member''" "ev_StateKey e = Some target" "ev_Membership e = None"
  shows
    "roomIDToJoinedUsers (snd (OnNewEvent now (Some e) r us p n)) = roomIDToJoinedUsers n \<and>
     broadcasts (fst (OnNewEvent now (Some e) r us p n)) =
       map (\<lambda>a. (a, CurrentPosition (snd (OnNewEvent now (Some e) r us p n))))
         (streams_of_users (snd (OnNewEvent now (Some e) r us p n)) (joinedUsers (ev_RoomID e) n)) \<and>
     CurrentPosition (snd (OnNewEvent now (Some e) r us p n)) = WithUpdates (CurrentPosition n) p \<and>
     LoggedError (ev_EventID e) \<in> set (fst (OnNewEvent now (Some e) r us p n)) \<and>
     (now < lastCleanUpTime n + Minute \<longrightarrow>
        userDeviceStreams (snd (OnNewEvent now (Some e) r us p n)) = userDeviceStreams n) \<and>
     (\<forall>a. a < length (store n) \<longrightarrow>
        store (snd (OnNewEvent now (Some e) r us p n)) ! a =
          (Broadcast (CurrentPosition (snd (OnNewEvent now (Some e) r us p n))) now ^^
             woken (fst (OnNewEvent now (Some e) r us p n)) a) (store n ! a)) \<and>
     (\<forall>u d a. u \<in> set (joinedUsers (ev_RoomID e) n) \<and>
        lookup_stream (userDeviceStreams (snd (OnNewEvent now (Some e) r us p n))) u d = Some a \<longrightarrow>
          (a, CurrentPosition (snd (OnNewEvent now (Some e) r us p n))) \<in>
            set (broadcasts (fst (OnNewEvent now (Some e) r us p n))) \<and>
          0 < woken (fst (OnNewEvent now (Some e) r us p n)) a) \<and>
     (wf n \<longrightarrow>
        (\<forall>u d a. u \<in> set (joinedUsers (ev_RoomID e) n) \<and>
           lookup_stream (userDeviceStreams (snd (OnNewEvent now (Some e) r us p n))) u d = Some a \<longrightarrow>
             a < length (store n) \<and>
             s_generation (store (snd (OnNewEvent now (Some e) r us p n)) ! a) =
               s_generation (store n ! a) + woken (fst (OnNewEvent now (Some e) r us p n)) a \<and>
             s_generation (store n ! a) <
               s_generation (store (snd (OnNewEvent now (Some e) r us p n)) ! a)) \<and>
        (\<forall>a t. (a, t) \<in> set (broadcasts (fst (OnNewEvent now (Some e) r us p n))) \<longrightarrow>
           t = CurrentPosition (snd (OnNewEvent now (Some e) r us p n)) \<and>
           (\<exists>u\<in>set (joinedUsers (ev_RoomID e) n). \<exists>d.
              lookup_stream (userDeviceStreams (snd (OnNewEvent now (Some e) r us p n))) u d =
                Some a)))"
proof -
  let ?tr = "fst (OnNewEvent now (Some e) r us p n)"
  let ?n' = "snd (OnNewEvent now (Some e) r us p n)"
  let ?J = "joinedUsers (ev_RoomID e) n"
  let ?m = "WithUpdates (currPos n) p"
  have st: "snd (snd (usersToNotify_of e m)) = m" "spec_appended e = []"
    "fst (usersToNotify_of e m) = [LoggedError (ev_EventID e)]" for m
    using assms by (simp_all add: usersToNotify_of_def spec_appended_def Let_def)
  have cp: "CurrentPosition ?n' = ?m" by (simp add: CurrentPosition_def OnNewEvent_currPos)
  have idx: "roomIDToJoinedUsers ?n' = roomIDToJoinedUsers n"
    unfolding OnNewEvent_Some_index st by (simp add: removeEmptyUserStreams_frame)
  have bc: "broadcasts ?tr = map (\<lambda>a. (a, ?m)) (streams_of_users ?n' ?J)"
    unfolding OnNewEvent_broadcasts by (simp add: spec_recipients_def st)
  have wk: "woken ?tr a = count_list (streams_of_users ?n' ?J) a" for a
    unfolding woken_def bc by (simp add: map_fst_tokens)
  have lg: "LoggedError (ev_EventID e) \<in> set ?tr"
    unfolding OnNewEvent_Some_fst by (simp add: Let_def st)
  have rg: "now < lastCleanUpTime n + Minute \<Longrightarrow> userDeviceStreams ?n' = userDeviceStreams n"
    unfolding OnNewEvent_Some_snd
    by (simp add: Let_def wakeupUsers_frame st removeEmptyUserStreams_def)
  have eff: "store ?n' ! a = (Broadcast ?m now ^^ woken ?tr a) (store n ! a)"
    if "a < length (store n)" for a
    using that by (rule OnNewEvent_store)
  have reached: "(a, ?m) \<in> set (broadcasts ?tr) \<and> 0 < woken ?tr a"
    if "u \<in> set ?J" "lookup_stream (userDeviceStreams ?n') u d = Some a" for u d a
  proof -
    have "a \<in> set (streams_of_users ?n' ?J)" using that by (rule streams_of_users_lookup)
    then show ?thesis unfolding bc wk by (simp add: count_list_pos_iff image_iff)
  qed
  have wf': "wf ?n'" if "wf n"
    using wf_apply_ingress [OF that, of "CallOnNewEvent now (Some e) r us p"] by simp
  have len: "length (store ?n') = length (store n)" by (rule OnNewEvent_store_length)
  have gen: "a < length (store n) \<and>
      s_generation (store ?n' ! a) = s_generation (store n ! a) + woken ?tr a \<and>
      s_generation (store n ! a) < s_generation (store ?n' ! a)"
    if "wf n" "u \<in> set ?J" "lookup_stream (userDeviceStreams ?n') u d = Some a" for u d a
  proof -
    have "a \<in> set (reg_addrs (userDeviceStreams ?n'))"
      using that(3) by (rule lookup_stream_in_reg_addrs)
    then have l: "a < length (store n)"
      using wf' [OF that(1)] len by (auto simp: wf_def list_all_iff)
    have g: "s_generation (store ?n' ! a) = s_generation (store n ! a) + woken ?tr a"
      unfolding eff [OF l] by (rule Broadcast_funpow_generation)
    show ?thesis using l g reached [OF that(2,3)] by simp
  qed
  have only: "t = ?m \<and> (\<exists>u\<in>set ?J. \<exists>d. lookup_stream (userDeviceStreams ?n') u d = Some a)"
    if "wf n" "(a, t) \<in> set (broadcasts ?tr)" for a t
  proof -
    have "unique_keys (userDeviceStreams ?n')" using wf' [OF that(1)] by (simp add: wf_def)
    moreover have "t = ?m" "a \<in> set (streams_of_users ?n' ?J)"
      using that(2) unfolding bc by auto
    ultimately show ?thesis using streams_of_users_registered by blast
  qed
  show ?thesis
    unfolding cp using idx bc lg rg eff reached gen only
    by (simp add: CurrentPosition_def) blast
qed

theorem unparsed_membership_still_fans_out_witness:
  "ev_Type (member_event ''!r1'' ''u2'' None) = ''m.room.member'' \<and>
   ev_StateKey (member_event ''!r1'' ''u2'' None) = Some ''u2'' \<and>
   ev_Membership (member_event ''!r1'' ''u2'' None) = None \<and>
   roomIDToJoinedUsers (snd (OnNewEvent 1 (Some (member_event ''!r1'' ''u2'' None)) [] []
       \<lparr>pdu = 5, sendToDevice = 0, keyChange = 0\<rparr> notifier0)) = [(''!r1'', [(''u1'', True)])] \<and>
   broadcasts (fst (OnNewEvent 1 (Some (member_event ''!r1'' ''u2'' None)) [] []
       \<lparr>pdu = 5, sendToDevice = 0, keyChange = 0\<rparr> notifier0)) =
     [(0, \<lparr>pdu = 5, sendToDevice = 7, keyChange = 0\<rparr>),
      (1, \<lparr>pdu = 5, sendToDevice = 7, keyChange = 0\<rparr>)] \<and>
   wf notifier0 \<and>
   joinedUsers ''!r1'' notifier0 = [''u1''] \<and>
   lookup_stream (userDeviceStreams (snd (OnNewEvent 1 (Some (member_event ''!r1'' ''u2'' None)) [] []
       \<lparr>pdu = 5, sendToDevice = 0, keyChange = 0\<rparr> notifier0))) ''u1'' ''d2'' = Some 1 \<and>
   s_generation (store notifier0 ! 1) = 0 \<and>
   s_generation (store (snd (OnNewEvent 1 (Some (member_event ''!r1'' ''u2'' None)) [] []
       \<lparr>pdu = 5, sendToDevice = 0, keyChange = 0\<rparr> notifier0)) ! 1) = 1 \<and>
   store (snd (OnNewEvent 1 (Some (member_event ''!r1'' ''u2'' None)) [] []
       \<lparr>pdu = 5, sendToDevice = 0, keyChange = 0\<rparr> notifier0)) ! 0 =
     \<lparr>s_UserID = ''u1'', s_DeviceID = ''d1'', s_pos = \<lparr>pdu = 5, sendToDevice = 7, keyChange = 0\<rparr>,
      s_generation = 1, s_timeOfLastNonEmpty = 1\<rparr> \<and>
   store (snd (OnNewEvent 1 (Some (member_event ''!r1'' ''u2'' None)) [] []
       \<lparr>pdu = 5, sendToDevice = 0, keyChange = 0\<rparr> notifier0)) ! 2 = store notifier0 ! 2"
proof -
  let ?e = "member_event ''!r1'' ''u2'' None"
  let ?p = "\<lparr>pdu = 5, sendToDevice = 0, keyChange = 0\<rparr>"
  let ?m = "\<lparr>pdu = 5, sendToDevice = 7, keyChange = 0\<rparr>"
  let ?n' = "snd (OnNewEvent 1 (Some ?e) [] [] ?p notifier0)"
  let ?tr = "fst (OnNewEvent 1 (Some ?e) [] [] ?p notifier0)"
  have h: "ev_Type ?e = ''m.room.member''" "ev_StateKey ?e = Some ''u2''" "ev_Membership ?e = None"
    by (simp_all add: member_event_def)
  have r: "ev_RoomID ?e = ''!r1''" by (simp add: member_event_def)
  have j: "joinedUsers ''!r1'' notifier0 = [''u1'']"
    by (simp add: joinedUsers_def notifier0_def values_of_def)
  have t: "1 < lastCleanUpTime notifier0 + Minute"
    by (simp add: notifier0_def Minute_def)
  have p: "WithUpdates (CurrentPosition notifier0) ?p = ?m"
    by (simp add: CurrentPosition_def notifier0_def pos0_def WithUpdates_def merge_dim_def)
  have w: "wf notifier0"
    by (simp add: wf_def unique_keys_def reg_addrs_def notifier0_def)
  have len: "length (store notifier0) = 3" by (simp add: notifier0_def)
  have s0: "store notifier0 ! 0 =
     \<lparr>s_UserID = ''u1'', s_DeviceID = ''d1'', s_pos = \<lparr>pdu = 3, sendToDevice = 7, keyChange = 0\<rparr>,
      s_generation = 0, s_timeOfLastNonEmpty = 0\<rparr>"
    "s_generation (store notifier0 ! 1) = 0"
    by (simp_all add: notifier0_def pos0_def NewUserDeviceStream_def)
  have i: "roomIDToJoinedUsers notifier0 = [(''!r1'', [(''u1'', True)])]"
    by (simp add: notifier0_def)
  note th = unparsed_membership_still_fans_out [OF h, of 1 "[]" "[]" ?p notifier0]
  from th have cp: "CurrentPosition ?n' = ?m" unfolding p by blast
  from th t have u: "userDeviceStreams ?n' = userDeviceStreams notifier0" by blast
  have s: "streams_of_users ?n' [''u1''] = [0, 1]"
    unfolding streams_of_users_def fetchUserStreams_def u by (simp add: notifier0_def)
  from th have bc: "broadcasts ?tr = [(0, ?m), (1, ?m)]"
    unfolding r j s cp by simp
  have wk: "woken ?tr 0 = 1" "woken ?tr 1 = 1" "woken ?tr 2 = 0"
    unfolding woken_def bc by simp_all
  have lk: "lookup_stream (userDeviceStreams ?n') ''u1'' ''d2'' = Some 1"
    unfolding u by (simp add: lookup_stream_def devices_of_def notifier0_def)
  from th have eff: "\<forall>a. a < length (store notifier0) \<longrightarrow>
      store ?n' ! a = (Broadcast (CurrentPosition ?n') 1 ^^ woken ?tr a) (store notifier0 ! a)"
    by blast
  have e0: "store ?n' ! 0 =
     \<lparr>s_UserID = ''u1'', s_DeviceID = ''d1'', s_pos = ?m, s_generation = 1,
      s_timeOfLastNonEmpty = 1\<rparr>"
    using eff [rule_format, of 0] unfolding cp wk s0 len by (simp add: Broadcast_def newer_def)
  have e2: "store ?n' ! 2 = store notifier0 ! 2"
    using eff [rule_format, of 2] unfolding wk len by simp
  have "''u1'' \<in> set (joinedUsers (ev_RoomID ?e) notifier0)" unfolding r j by simp
  with th w lk have "s_generation (store ?n' ! 1) =
      s_generation (store notifier0 ! 1) + woken ?tr 1"
    by blast
  then have g1: "s_generation (store ?n' ! 1) = 1" unfolding wk s0 by simp
  from th have ix: "roomIDToJoinedUsers ?n' = roomIDToJoinedUsers notifier0" by blast
  show ?thesis
    using h ix bc w j lk s0(2) g1 e0 e2 unfolding i by simp
qed

end
